theory Spec2Isabelle
  imports Main "HOL-Library.Word" "HOL-Library.AList" "HOL-Library.Sublist" "HOL-Library.Char_ord"
begin

section \<open>Server configuration (SetServerConfig)\<close>

text \<open>
  \<^verbatim>\<open>ServerConfig\<close> of libfastpaze.go. A \<^verbatim>\<open>time.Duration\<close> is an int64 count of
  nanoseconds and \<^verbatim>\<open>int\<close> is the 64-bit machine integer of the platforms the shared
  library is built for; both are 64-bit words here, read as two's complement.
\<close>

record ServerConfig =
  ReadTimeout :: "64 word"
  WriteTimeout :: "64 word"
  IdleTimeout :: "64 word"
  MaxRequestBodySize :: "64 word"
  Concurrency :: "64 word"
  TCPKeepAlive :: bool
  ReduceMemoryUsage :: bool
  Port :: string

definition Millisecond :: "64 word" where
  "Millisecond = 1000000"

definition Second :: "64 word" where
  "Second = 1000 * Millisecond"

text \<open>The initial value of the global \<^verbatim>\<open>serverConfig\<close>.\<close>

definition serverConfig_init :: ServerConfig where
  "serverConfig_init =
     \<lparr> ReadTimeout = 5 * Second,
       WriteTimeout = 10 * Second,
       IdleTimeout = 30 * Second,
       MaxRequestBodySize = 4 * 1024 * 1024,
       Concurrency = 256 * 1024,
       TCPKeepAlive = True,
       ReduceMemoryUsage = True,
       Port = '':8080'' \<rparr>"

text \<open>
  \<^verbatim>\<open>SetServerConfig\<close>: the six arguments arrive as \<^verbatim>\<open>uintptr\<close>; the conversions
  \<^verbatim>\<open>int64(c)\<close> and \<^verbatim>\<open>int(c)\<close> keep the 64 bits and read them signed, so the tests
  \<^verbatim>\<open>x > 0\<close> are signed comparisons. The port is a C string pointer: \<open>None\<close> is
  the nil pointer. The multiplication by \<^verbatim>\<open>time.Millisecond\<close> wraps as int64
  multiplication does. The global is passed in and returned.
\<close>

definition SetServerConfig ::
  "64 word \<Rightarrow> 64 word \<Rightarrow> 64 word \<Rightarrow> 64 word \<Rightarrow> 64 word \<Rightarrow> string option
     \<Rightarrow> ServerConfig \<Rightarrow> ServerConfig" where
  "SetServerConfig cReadTimeout cWriteTimeout cIdleTimeout cMaxBodySize cConcurrency cPort cfg =
     (let c1 = (if 0 <s cReadTimeout then cfg\<lparr>ReadTimeout := cReadTimeout * Millisecond\<rparr> else cfg);
          c2 = (if 0 <s cWriteTimeout then c1\<lparr>WriteTimeout := cWriteTimeout * Millisecond\<rparr> else c1);
          c3 = (if 0 <s cIdleTimeout then c2\<lparr>IdleTimeout := cIdleTimeout * Millisecond\<rparr> else c2);
          c4 = (if 0 <s cMaxBodySize then c3\<lparr>MaxRequestBodySize := cMaxBodySize\<rparr> else c3);
          c5 = (if 0 <s cConcurrency then c4\<lparr>Concurrency := cConcurrency\<rparr> else c4)
      in case cPort of
           None \<Rightarrow> c5
         | Some port \<Rightarrow> if port \<noteq> [] then c5\<lparr>Port := port\<rparr> else c5)"

section \<open>Middleware pipeline (applyMiddleware)\<close>

text \<open>
  A \<^verbatim>\<open>fasthttp.RequestHandler\<close> mutates the request context; here it is a function
  from the state it works on to the new state. A middleware maps a handler to a handler.
  \<^verbatim>\<open>applyMiddleware\<close> runs \<^verbatim>\<open>for i := len(middlewares) - 1; i >= 0; i--\<close>;
  the loop counter of the model is the number of middlewares still to apply, so the
  body at \<open>Suc i\<close> uses index \<open>i\<close>, which is always in range.
\<close>

type_synonym 's RequestHandler = "'s \<Rightarrow> 's"

type_synonym 's Middleware = "'s RequestHandler \<Rightarrow> 's RequestHandler"

fun applyMiddleware_loop :: "'s Middleware list \<Rightarrow> nat \<Rightarrow> 's RequestHandler \<Rightarrow> 's RequestHandler" where
  "applyMiddleware_loop middlewares 0 result = result"
| "applyMiddleware_loop middlewares (Suc i) result =
     applyMiddleware_loop middlewares i ((middlewares ! i) result)"

definition applyMiddleware :: "'s Middleware list \<Rightarrow> 's RequestHandler \<Rightarrow> 's RequestHandler" where
  "applyMiddleware middlewares handler =
     applyMiddleware_loop middlewares (length middlewares) handler"

text \<open>
  An observer for the order of execution, shaped like \<^verbatim>\<open>loggingMiddleware\<close> (work
  before \<^verbatim>\<open>next(ctx)\<close>, work after it): on a state that is a list of events it records
  \<open>Inl x\<close> before calling the wrapped handler and \<open>Inr x\<close> after it returns.
\<close>

definition bracketing :: "'a \<Rightarrow> ('a + 'a) list Middleware" where
  "bracketing x next = (\<lambda>s. next (s @ [Inl x]) @ [Inr x])"

section \<open>Rate limiter (rateLimiterMiddleware)\<close>

text \<open>
  The limiter's closure holds \<^verbatim>\<open>clients\<close>, a map from the remote address to the
  list of accepted request times. A \<^verbatim>\<open>time.Time\<close> is a count of nanoseconds on the
  monotonic clock, an \<open>int\<close>; \<^verbatim>\<open>now.Sub(t) < windowSize\<close> is \<open>now - t < windowSize\<close>
  (the saturation of \<^verbatim>\<open>Sub\<close> at the ends of int64 does not change the comparison with
  a window of 60 seconds).
\<close>

definition maxReqs :: nat where
  "maxReqs = 100"

definition windowSize :: int where
  "windowSize = 60 * 1000000000"

type_synonym clients = "string \<rightharpoonup> int list"

text \<open>Lines 196-204: the clean-up of old timestamps, done only for a known address.\<close>

definition prune :: "clients \<Rightarrow> int \<Rightarrow> string \<Rightarrow> clients" where
  "prune cl now ip =
     (case cl ip of
        None \<Rightarrow> cl
      | Some ts \<Rightarrow> cl(ip \<mapsto> filter (\<lambda>t. now - t < windowSize) ts))"

text \<open>\<^verbatim>\<open>clients[ip]\<close> read from a Go map: the nil slice when the key is absent.\<close>

definition timestamps :: "clients \<Rightarrow> string \<Rightarrow> int list" where
  "timestamps cl ip = (case cl ip of None \<Rightarrow> [] | Some ts \<Rightarrow> ts)"

text \<open>
  The section under the mutex (lines 193-216): the new map and whether the request goes
  on to the wrapped handler.
\<close>

definition rateLimiter_locked :: "clients \<Rightarrow> int \<Rightarrow> string \<Rightarrow> clients \<times> bool" where
  "rateLimiter_locked cl now ip =
     (let cl1 = prune cl now ip in
      if length (timestamps cl1 ip) \<ge> maxReqs then (cl1, False)
      else (cl1(ip \<mapsto> timestamps cl1 ip @ [now]), True))"

text \<open>What the limiter needs of the request context: the remote address and the response.\<close>

record RateCtx =
  RemoteAddr :: string
  RespStatus :: nat
  RespBody :: string

definition rateLimitBody :: string where
  "rateLimitBody = ''{\"error\":\"Rate limit exceeded\",\"status_code\":429,\"description\":\"Too many requests, please try again later\"}''"

definition rateLimiterMiddleware ::
  "('c RateCtx_scheme \<Rightarrow> 'c RateCtx_scheme) \<Rightarrow> int
     \<Rightarrow> clients \<times> 'c RateCtx_scheme \<Rightarrow> clients \<times> 'c RateCtx_scheme" where
  "rateLimiterMiddleware next now = (\<lambda>(cl, ctx).
     (case rateLimiter_locked cl now (RemoteAddr ctx) of
        (cl', False) \<Rightarrow> (cl', ctx\<lparr>RespStatus := 429, RespBody := rateLimitBody\<rparr>)
      | (cl', True) \<Rightarrow> (cl', next ctx)))"

text \<open>A client's requests arriving at the given times, one after the other.\<close>

fun serve :: "clients \<Rightarrow> string \<Rightarrow> int list \<Rightarrow> clients \<times> bool list" where
  "serve cl ip [] = (cl, [])"
| "serve cl ip (now # nows) =
     (let (cl1, ok) = rateLimiter_locked cl now ip;
          (cl2, oks) = serve cl1 ip nows
      in (cl2, ok # oks))"

section \<open>Path patterns (pathToRegex)\<close>

text \<open>
  Strings are byte strings, as Go's are. \<^verbatim>\<open>pathToRegex\<close> works with Go's
  \<^verbatim>\<open>regexp\<close> package in three places: the fixed pattern \<^verbatim>\<open>\{([^{}]+)\}\<close> finds the
  placeholders, \<^verbatim>\<open>ReplaceAllString\<close> puts \<^verbatim>\<open>([^/]+)\<close> in their place, and
  \<^verbatim>\<open>regexp.Compile\<close> compiles the result between \<^verbatim>\<open>^\<close> and \<^verbatim>\<open>$\<close>. The text of the
  path outside the placeholders is not escaped, so it is read as regular-expression
  syntax.
\<close>

subsection \<open>The placeholder pattern\<close>

definition not_brace :: "char \<Rightarrow> bool" where
  "not_brace c \<longleftrightarrow> c \<noteq> CHR ''{'' \<and> c \<noteq> CHR ''}''"

datatype piece = Text char | Placeholder string

text \<open>
  The leftmost, non-overlapping matches of \<^verbatim>\<open>\{([^{}]+)\}\<close> in a string, with the
  text between them: at an opening brace the class \<^verbatim>\<open>[^{}]+\<close> takes the longest run
  free of braces, and the match succeeds exactly when that run is not empty and a closing
  brace follows it.
\<close>

function paramPattern_scan :: "string \<Rightarrow> piece list" where
  "paramPattern_scan [] = []"
| "paramPattern_scan (c # cs) =
     (if c = CHR ''{'' \<and> takeWhile not_brace cs \<noteq> []
         \<and> dropWhile not_brace cs \<noteq> [] \<and> hd (dropWhile not_brace cs) = CHR ''}''
      then Placeholder (takeWhile not_brace cs) # paramPattern_scan (tl (dropWhile not_brace cs))
      else Text c # paramPattern_scan cs)"
  by pat_completeness auto
termination
proof (relation "measure length")
  fix c :: char and cs :: string
  have "length (tl (dropWhile not_brace cs)) \<le> length (dropWhile not_brace cs)"
    by simp
  also have "\<dots> \<le> length cs"
    by (rule length_dropWhile_le)
  finally show "(tl (dropWhile not_brace cs), c # cs) \<in> measure length"
    by simp
qed simp_all

text \<open>\<^verbatim>\<open>paramPattern.FindAllStringSubmatch(path, -1)\<close>, of which the loop keeps \<^verbatim>\<open>match[1]\<close>.\<close>

fun FindAll_names :: "piece list \<Rightarrow> string list" where
  "FindAll_names [] = []"
| "FindAll_names (Text c # ps) = FindAll_names ps"
| "FindAll_names (Placeholder name # ps) = name # FindAll_names ps"

text \<open>\<^verbatim>\<open>paramPattern.ReplaceAllString(path, `([^/]+)`)\<close>.\<close>

fun ReplaceAll_group :: "piece list \<Rightarrow> string" where
  "ReplaceAll_group [] = []"
| "ReplaceAll_group (Text c # ps) = c # ReplaceAll_group ps"
| "ReplaceAll_group (Placeholder name # ps) = ''([^/]+)'' @ ReplaceAll_group ps"

subsection \<open>Runes\<close>

text \<open>
  \<^verbatim>\<open>regexp\<close> reads a string rune by rune as \<^verbatim>\<open>utf8.DecodeRuneInString\<close> does: a
  well-formed UTF-8 sequence of up to four bytes is one rune, and any other byte is a rune
  of width one.
\<close>

definition is_ascii :: "char \<Rightarrow> bool" where
  "is_ascii c \<longleftrightarrow> (of_char c :: nat) < 128"

definition cont_byte :: "char \<Rightarrow> bool" where
  "cont_byte c \<longleftrightarrow> 128 \<le> (of_char c :: nat) \<and> (of_char c :: nat) \<le> 191"

definition second_ok :: "nat \<Rightarrow> char \<Rightarrow> bool" where
  "second_ok b c \<longleftrightarrow>
     (if b = 224 then 160 else if b = 240 then 144 else 128) \<le> (of_char c :: nat)
     \<and> (of_char c :: nat) \<le> (if b = 237 then 159 else if b = 244 then 143 else 191)"

fun rune_width :: "string \<Rightarrow> nat" where
  "rune_width [] = 0"
| "rune_width (c # cs) =
     (let b = (of_char c :: nat) in
      if b < 128 then 1
      else if 194 \<le> b \<and> b \<le> 223 then
        (case cs of c1 # _ \<Rightarrow> if cont_byte c1 then 2 else 1 | _ \<Rightarrow> 1)
      else if 224 \<le> b \<and> b \<le> 239 then
        (case cs of c1 # c2 # _ \<Rightarrow> if second_ok b c1 \<and> cont_byte c2 then 3 else 1 | _ \<Rightarrow> 1)
      else if 240 \<le> b \<and> b \<le> 244 then
        (case cs of c1 # c2 # c3 # _ \<Rightarrow>
           if second_ok b c1 \<and> cont_byte c2 \<and> cont_byte c3 then 4 else 1 | _ \<Rightarrow> 1)
      else 1)"

function runes :: "string \<Rightarrow> string list" where
  "runes [] = []"
| "runes (c # cs) =
     (c # take (rune_width (c # cs) - 1) cs) # runes (drop (rune_width (c # cs) - 1) cs)"
  by pat_completeness auto
termination
  by (relation "measure length") simp_all

text \<open>
  A rune of one byte outside ASCII is an ill-formed byte. \<^verbatim>\<open>checkUTF8\<close> of
  \<^verbatim>\<open>regexp/syntax\<close> refuses an expression that holds one; in an input it is read as
  the rune U+FFFD, whose own encoding is the three bytes EF BF BD.
\<close>

definition ill_formed :: "string \<Rightarrow> bool" where
  "ill_formed r \<longleftrightarrow> length r = 1 \<and> \<not> is_ascii (hd r)"

definition valid_utf8 :: "string \<Rightarrow> bool" where
  "valid_utf8 s \<longleftrightarrow> list_all (\<lambda>r. \<not> ill_formed r) (runes s)"

definition RuneError :: string where
  "RuneError = [CHR 0xEF, CHR 0xBF, CHR 0xBD]"

definition rune_value :: "string \<Rightarrow> string" where
  "rune_value r = (if ill_formed r then RuneError else r)"

subsection \<open>Compiled patterns\<close>

text \<open>
  The model interprets the expressions \<^verbatim>\<open>^ body $\<close> whose body is made of the group
  \<^verbatim>\<open>([^/]+)\<close>, the dot, and runes that stand for themselves: ASCII characters other
  than \<^verbatim>\<open>\ . + * ? ( ) | [ ] { } ^ $\<close>, and every rune outside ASCII. A brace stands
  for itself unless it opens a repetition, which needs a digit right after \<^verbatim>\<open>{\<close>.
  These are compiled to a program \<open>Prog\<close>.

  Any other expression in well-formed UTF-8 is not interpreted: it is \<open>Native\<close>, the
  pattern Go's package makes of the text. Whether the package compiles it
  (\<open>native_compiles\<close>) and what the compiled pattern finds in an input
  (\<open>native_FindStringSubmatch\<close>) are left unspecified: nothing is known of these two
  constants, so a theorem holds whatever the package answers there.
\<close>

datatype inst = Lit char | LitRune string | AnyNotNL | Capture

datatype regexp = Prog "inst list" | Native string

definition native_compiles :: "string \<Rightarrow> bool" where
  "native_compiles = undefined"

definition native_FindStringSubmatch :: "string \<Rightarrow> string \<Rightarrow> string list" where
  "native_FindStringSubmatch = undefined"

definition plain_char :: "char \<Rightarrow> bool" where
  "plain_char c \<longleftrightarrow> is_ascii c \<and> c \<notin> set (CHR 0x5C # ''.+*?()|[]{}^$'')"

function parse_body :: "string \<Rightarrow> inst list option" where
  "parse_body [] = Some []"
| "parse_body (c # cs) =
     (if prefix ''([^/]+)'' (c # cs) then map_option ((#) Capture) (parse_body (drop 6 cs))
      else if c = CHR ''.'' then map_option ((#) AnyNotNL) (parse_body cs)
      else if c = CHR ''}'' then map_option ((#) (Lit c)) (parse_body cs)
      else if c = CHR ''{'' \<and> (case cs of [] \<Rightarrow> True | d # _ \<Rightarrow> \<not> (CHR ''0'' \<le> d \<and> d \<le> CHR ''9''))
        then map_option ((#) (Lit c)) (parse_body cs)
      else if plain_char c then map_option ((#) (Lit c)) (parse_body cs)
      else if 1 < rune_width (c # cs)
        then map_option ((#) (LitRune (c # take (rune_width (c # cs) - 1) cs)))
               (parse_body (drop (rune_width (c # cs) - 1) cs))
      else None)"
  by pat_completeness auto
termination
  by (relation "measure length") simp_all

definition regexp_Compile :: "string \<Rightarrow> regexp option" where
  "regexp_Compile expr =
     (if \<not> valid_utf8 expr then None
      else case (case expr of
                   [] \<Rightarrow> None
                 | c # cs \<Rightarrow> if c = CHR ''^'' \<and> cs \<noteq> [] \<and> last cs = CHR ''$''
                            then parse_body (butlast cs) else None) of
             Some prog \<Rightarrow> Some (Prog prog)
           | None \<Rightarrow> if native_compiles expr then Some (Native expr) else None)"

text \<open>
  A program is run by backtracking, which is the match Go's leftmost-first semantics
  selects: the greedy group \<^verbatim>\<open>([^/]+)\<close> first takes every rune up to the next slash
  and gives runes back one at a time, down to one rune, until the rest of the pattern
  matches the rest of the input. A literal rune matches the input rune of the same value.
  The result is the list of captured substrings.
\<close>

fun try_lengths ::
  "(string list \<Rightarrow> string list option) \<Rightarrow> string list \<Rightarrow> nat \<Rightarrow> string list option" where
  "try_lengths k rs 0 = None"
| "try_lengths k rs (Suc n) =
     (case k (drop (Suc n) rs) of
        Some caps \<Rightarrow> Some (concat (take (Suc n) rs) # caps)
      | None \<Rightarrow> try_lengths k rs n)"

primrec rmatch :: "inst list \<Rightarrow> string list \<Rightarrow> string list option" where
  "rmatch [] rs = (if rs = [] then Some [] else None)"
| "rmatch (i # prog) rs =
     (case i of
        Lit c \<Rightarrow> (case rs of [] \<Rightarrow> None | r # rs' \<Rightarrow> if r = [c] then rmatch prog rs' else None)
      | LitRune p \<Rightarrow>
          (case rs of [] \<Rightarrow> None | r # rs' \<Rightarrow> if rune_value r = p then rmatch prog rs' else None)
      | AnyNotNL \<Rightarrow>
          (case rs of [] \<Rightarrow> None | r # rs' \<Rightarrow> if r \<noteq> [CHR 0x0A] then rmatch prog rs' else None)
      | Capture \<Rightarrow>
          try_lengths (rmatch prog) rs (length (takeWhile (\<lambda>r. r \<noteq> [CHR ''/'']) rs)))"

text \<open>
  \<^verbatim>\<open>FindStringSubmatch\<close>: nil (the empty list) when the pattern does not match, else
  the whole match, which for an anchored pattern is the input, followed by the groups.
  \<^verbatim>\<open>MatchString\<close> tells whether there is a match.
\<close>

definition FindStringSubmatch :: "regexp \<Rightarrow> string \<Rightarrow> string list" where
  "FindStringSubmatch re s =
     (case re of
        Prog prog \<Rightarrow> (case rmatch prog (runes s) of None \<Rightarrow> [] | Some caps \<Rightarrow> s # caps)
      | Native expr \<Rightarrow> native_FindStringSubmatch expr s)"

definition MatchString :: "regexp \<Rightarrow> string \<Rightarrow> bool" where
  "MatchString re s = (FindStringSubmatch re s \<noteq> [])"

definition pathToRegex :: "string \<Rightarrow> regexp option \<times> string list" where
  "pathToRegex path =
     (let paramNames = FindAll_names (paramPattern_scan path);
          regexPattern = ReplaceAll_group (paramPattern_scan path);
          regexPattern = ''^'' @ regexPattern @ ''$''
      in (regexp_Compile regexPattern, paramNames))"

section \<open>Route registry\<close>

record ParameterInfo =
  Name :: string
  In :: string
  ParamDescription :: string
  Required :: bool
  Type :: string
  Schema :: string

text \<open>
  \<^verbatim>\<open>RouteInfo\<close>. The fields \<^verbatim>\<open>RequestBody\<close> and \<^verbatim>\<open>Dependencies\<close> are never assigned
  in the source and are left out; \<^verbatim>\<open>PathRegex\<close> is \<open>None\<close> for the nil pointer.
\<close>

record RouteInfo =
  Path :: string
  Method :: string
  Message :: string
  Description :: string
  Parameters :: "ParameterInfo list"
  Responses :: "(nat \<times> string) list"
  PathRegex :: "regexp option"
  ParamNames :: "string list"

text \<open>The zero value \<^verbatim>\<open>RouteInfo{}\<close>.\<close>

definition RouteInfo_zero :: RouteInfo where
  "RouteInfo_zero =
     \<lparr> Path = [], Method = [], Message = [], Description = [], Parameters = [],
       Responses = [], PathRegex = None, ParamNames = [] \<rparr>"

text \<open>
  The global \<^verbatim>\<open>routes\<close> is a Go map from the key \<^verbatim>\<open>path + method\<close> to the route. It is
  an association list with distinct keys here; the order of the list stands for the order
  in which a \<^verbatim>\<open>range\<close> over the map yields the entries, which Go leaves open. The
  theorems hold for every order.
\<close>

type_synonym routes = "(string \<times> RouteInfo) list"

text \<open>
  \<^verbatim>\<open>strings.ToUpper\<close> and \<^verbatim>\<open>strings.ToLower\<close>. On a string of ASCII characters they
  change the letters and keep the other bytes. On any other string Go maps every rune by
  the Unicode tables; that result is not modelled and left unspecified
  (\<open>native_ToUpper\<close>, \<open>native_ToLower\<close>).
\<close>

definition native_ToUpper :: "string \<Rightarrow> string" where
  "native_ToUpper = undefined"

definition native_ToLower :: "string \<Rightarrow> string" where
  "native_ToLower = undefined"

definition ToUpper :: "string \<Rightarrow> string" where
  "ToUpper s =
     (if list_all is_ascii s
      then map (\<lambda>c. if CHR ''a'' \<le> c \<and> c \<le> CHR ''z'' then char_of (of_char c - (32::nat)) else c) s
      else native_ToUpper s)"

definition ToLower :: "string \<Rightarrow> string" where
  "ToLower s =
     (if list_all is_ascii s
      then map (\<lambda>c. if CHR ''A'' \<le> c \<and> c \<le> CHR ''Z'' then char_of (of_char c + (32::nat)) else c) s
      else native_ToLower s)"

definition standard_responses :: "(nat \<times> string) list" where
  "standard_responses =
     [(200, ''Successful response''), (400, ''Bad request''), (404, ''Not found''),
      (500, ''Internal server error'')]"

text \<open>
  The body shared by \<^verbatim>\<open>RegisterRoute\<close> and \<^verbatim>\<open>RegisterRouteWithParams\<close> once the
  arguments are read: compile the path and store the route under \<^verbatim>\<open>path + method\<close>.
\<close>

definition store_route ::
  "string \<Rightarrow> string \<Rightarrow> string \<Rightarrow> string \<Rightarrow> ParameterInfo list \<Rightarrow> routes \<Rightarrow> routes" where
  "store_route path method message desc params routes =
     (let (pathRegex, paramNames) = pathToRegex path;
          key = path @ method
      in AList.update key
           \<lparr> Path = path, Method = method, Message = message, Description = desc,
             Parameters = params, Responses = standard_responses,
             PathRegex = pathRegex, ParamNames = paramNames \<rparr> routes)"

text \<open>
  \<^verbatim>\<open>RegisterRoute\<close>: an argument is \<open>None\<close> for a nil pointer, and then nothing is
  registered.
\<close>

definition RegisterRoute ::
  "string option \<Rightarrow> string option \<Rightarrow> string option \<Rightarrow> string option \<Rightarrow> routes \<Rightarrow> routes" where
  "RegisterRoute cPath cMethod cMessage cDesc routes =
     (case (cPath, cMethod, cMessage, cDesc) of
        (Some path, Some method, Some message, Some desc) \<Rightarrow>
          store_route path (ToUpper method) message desc [] routes
      | _ \<Rightarrow> routes)"

text \<open>
  \<^verbatim>\<open>RegisterRouteWithParams\<close>: the parameter list arrives as JSON text; \<open>params\<close> is the
  outcome of \<^verbatim>\<open>json.Unmarshal\<close> on it, \<open>None\<close> when it fails, and then nothing is
  registered.
\<close>

definition RegisterRouteWithParams ::
  "string option \<Rightarrow> string option \<Rightarrow> string option \<Rightarrow> string option
     \<Rightarrow> ParameterInfo list option option \<Rightarrow> routes \<Rightarrow> routes" where
  "RegisterRouteWithParams cPath cMethod cMessage cDesc cParams routes =
     (case (cPath, cMethod, cMessage, cDesc, cParams) of
        (Some path, Some method, Some message, Some desc, Some (Some params)) \<Rightarrow>
          store_route path (ToUpper method) message desc params routes
      | _ \<Rightarrow> routes)"

text \<open>
  The invariant of the registry that registration maintains: keys are distinct, every
  route is stored under its own \<^verbatim>\<open>path + method\<close>, and its pattern and parameter
  names are those \<^verbatim>\<open>pathToRegex\<close> gives for its path.
\<close>

definition wf_routes :: "routes \<Rightarrow> bool" where
  "wf_routes routes \<longleftrightarrow>
     distinct (map fst routes)
     \<and> (\<forall>(key, route) \<in> set routes.
           key = Path route @ Method route
           \<and> PathRegex route = fst (pathToRegex (Path route))
           \<and> ParamNames route = snd (pathToRegex (Path route)))"

text \<open>
  \<^verbatim>\<open>pathParams\<close> is a Go map filled in the order of the parameter names; it is kept as
  an association list with distinct keys (a later value for a name replaces the earlier
  one), read through \<open>map_of\<close>.
\<close>

type_synonym params = "(string \<times> string) list"

fun fill_params :: "nat \<Rightarrow> string list \<Rightarrow> string list \<Rightarrow> params \<Rightarrow> params" where
  "fill_params i [] matches pathParams = pathParams"
| "fill_params i (name # names) matches pathParams =
     fill_params (Suc i) names matches
       (if i + 1 < length matches then AList.update name (matches ! (i + 1)) pathParams
        else pathParams)"

text \<open>The loop of \<^verbatim>\<open>findMatchingRoute\<close> over the registered routes.\<close>

fun scan_routes :: "routes \<Rightarrow> string \<Rightarrow> string \<Rightarrow> RouteInfo \<times> params \<times> bool" where
  "scan_routes [] path method = (RouteInfo_zero, [], False)"
| "scan_routes ((key, route) # rest) path method =
     (case PathRegex route of
        None \<Rightarrow> scan_routes rest path method
      | Some re \<Rightarrow>
          if Method route = method then
            (let matches = FindStringSubmatch re path in
             if length matches > 1
             then (route, fill_params 0 (ParamNames route) matches [], True)
             else scan_routes rest path method)
          else scan_routes rest path method)"

definition findMatchingRoute :: "routes \<Rightarrow> string \<Rightarrow> string \<Rightarrow> RouteInfo \<times> params \<times> bool" where
  "findMatchingRoute routes path method =
     (case map_of routes (path @ method) of
        Some route \<Rightarrow> (route, [], True)
      | None \<Rightarrow> scan_routes routes path method)"

section \<open>JSON documents (encoding/json)\<close>

text \<open>
  \<^verbatim>\<open>json.Unmarshal\<close> first runs the scanner of \<^verbatim>\<open>encoding/json\<close> over the whole
  input (\<^verbatim>\<open>checkValid\<close>). The scanner is a state machine: a step function chosen by
  the current state, and a stack of the enclosing objects and arrays. The model follows
  it state by state; the stack has its top at the head of the list. The model also
  collects the text of every number literal, which the decoder converts afterwards.
\<close>

datatype jstate =
    BeginValue | BeginValueOrEmpty | BeginStringOrEmpty | BeginString | EndValue | EndTop
  | InString | InStringEsc | InStringEscU | InStringEscU1 | InStringEscU12 | InStringEscU123
  | Neg | Num1 | Num0 | Dot | Dot0 | Exp | ExpSign | Exp0
  | LitT | LitTr | LitTru | LitF | LitFa | LitFal | LitFals | LitN | LitNu | LitNul

datatype pstate = parseObjectKey | parseObjectValue | parseArrayValue

definition isSpace :: "char \<Rightarrow> bool" where
  "isSpace c \<longleftrightarrow> c = CHR '' '' \<or> c = CHR 0x09 \<or> c = CHR 0x0D \<or> c = CHR 0x0A"

definition isDigit :: "char \<Rightarrow> bool" where
  "isDigit c \<longleftrightarrow> CHR ''0'' \<le> c \<and> c \<le> CHR ''9''"

definition isHex :: "char \<Rightarrow> bool" where
  "isHex c \<longleftrightarrow> isDigit c \<or> (CHR ''a'' \<le> c \<and> c \<le> CHR ''f'') \<or> (CHR ''A'' \<le> c \<and> c \<le> CHR ''F'')"

definition maxNestingDepth :: nat where
  "maxNestingDepth = 10000"

definition pushParseState :: "pstate list \<Rightarrow> pstate \<Rightarrow> jstate \<Rightarrow> (jstate \<times> pstate list) option" where
  "pushParseState ps new succ =
     (if length (new # ps) \<le> maxNestingDepth then Some (succ, new # ps) else None)"

definition popParseState :: "pstate list \<Rightarrow> jstate \<times> pstate list" where
  "popParseState ps = (if tl ps = [] then (EndTop, []) else (EndValue, tl ps))"

fun stateEndValue :: "pstate list \<Rightarrow> char \<Rightarrow> (jstate \<times> pstate list) option" where
  "stateEndValue [] c = (if isSpace c then Some (EndTop, []) else None)"
| "stateEndValue (p # ps) c =
     (if isSpace c then Some (EndValue, p # ps)
      else case p of
        parseObjectKey \<Rightarrow>
          if c = CHR '':'' then Some (BeginValue, parseObjectValue # ps) else None
      | parseObjectValue \<Rightarrow>
          if c = CHR '','' then Some (BeginString, parseObjectKey # ps)
          else if c = CHR ''}'' then Some (popParseState (p # ps))
          else None
      | parseArrayValue \<Rightarrow>
          if c = CHR '','' then Some (BeginValue, p # ps)
          else if c = CHR '']'' then Some (popParseState (p # ps))
          else None)"

definition stateBeginValue :: "jstate \<Rightarrow> pstate list \<Rightarrow> char \<Rightarrow> (jstate \<times> pstate list) option" where
  "stateBeginValue cur ps c =
     (if isSpace c then Some (cur, ps)
      else if c = CHR ''{'' then pushParseState ps parseObjectKey BeginStringOrEmpty
      else if c = CHR ''['' then pushParseState ps parseArrayValue BeginValueOrEmpty
      else if c = CHR 0x22 then Some (InString, ps)
      else if c = CHR ''-'' then Some (Neg, ps)
      else if c = CHR ''0'' then Some (Num0, ps)
      else if c = CHR ''t'' then Some (LitT, ps)
      else if c = CHR ''f'' then Some (LitF, ps)
      else if c = CHR ''n'' then Some (LitN, ps)
      else if CHR ''1'' \<le> c \<and> c \<le> CHR ''9'' then Some (Num1, ps)
      else None)"

definition stateBeginString :: "jstate \<Rightarrow> pstate list \<Rightarrow> char \<Rightarrow> (jstate \<times> pstate list) option" where
  "stateBeginString cur ps c =
     (if isSpace c then Some (cur, ps)
      else if c = CHR 0x22 then Some (InString, ps)
      else None)"

definition expect :: "char \<Rightarrow> jstate \<Rightarrow> pstate list \<Rightarrow> char \<Rightarrow> (jstate \<times> pstate list) option" where
  "expect want succ ps c = (if c = want then Some (succ, ps) else None)"

definition state0 :: "pstate list \<Rightarrow> char \<Rightarrow> (jstate \<times> pstate list) option" where
  "state0 ps c =
     (if c = CHR ''.'' then Some (Dot, ps)
      else if c = CHR ''e'' \<or> c = CHR ''E'' then Some (Exp, ps)
      else stateEndValue ps c)"

definition stateESign :: "pstate list \<Rightarrow> char \<Rightarrow> (jstate \<times> pstate list) option" where
  "stateESign ps c = (if isDigit c then Some (Exp0, ps) else None)"

text \<open>One byte through the step function of the current state; \<open>None\<close> is \<^verbatim>\<open>scanError\<close>.\<close>

fun scan_step :: "jstate \<Rightarrow> pstate list \<Rightarrow> char \<Rightarrow> (jstate \<times> pstate list) option" where
  "scan_step BeginValue ps c = stateBeginValue BeginValue ps c"
| "scan_step BeginValueOrEmpty ps c =
     (if isSpace c then Some (BeginValueOrEmpty, ps)
      else if c = CHR '']'' then stateEndValue ps c
      else stateBeginValue BeginValueOrEmpty ps c)"
| "scan_step BeginStringOrEmpty ps c =
     (if isSpace c then Some (BeginStringOrEmpty, ps)
      else if c = CHR ''}'' then stateEndValue (parseObjectValue # tl ps) c
      else stateBeginString BeginStringOrEmpty ps c)"
| "scan_step BeginString ps c = stateBeginString BeginString ps c"
| "scan_step EndValue ps c = stateEndValue ps c"
| "scan_step EndTop ps c = (if isSpace c then Some (EndTop, ps) else None)"
| "scan_step InString ps c =
     (if c = CHR 0x22 then Some (EndValue, ps)
      else if c = CHR 0x5C then Some (InStringEsc, ps)
      else if c < CHR 0x20 then None
      else Some (InString, ps))"
| "scan_step InStringEsc ps c =
     (if c \<in> set (CHR 0x5C # CHR 0x22 # ''bfnrt/'') then Some (InString, ps)
      else if c = CHR ''u'' then Some (InStringEscU, ps)
      else None)"
| "scan_step InStringEscU ps c = (if isHex c then Some (InStringEscU1, ps) else None)"
| "scan_step InStringEscU1 ps c = (if isHex c then Some (InStringEscU12, ps) else None)"
| "scan_step InStringEscU12 ps c = (if isHex c then Some (InStringEscU123, ps) else None)"
| "scan_step InStringEscU123 ps c = (if isHex c then Some (InString, ps) else None)"
| "scan_step Neg ps c =
     (if c = CHR ''0'' then Some (Num0, ps)
      else if CHR ''1'' \<le> c \<and> c \<le> CHR ''9'' then Some (Num1, ps)
      else None)"
| "scan_step Num1 ps c = (if isDigit c then Some (Num1, ps) else state0 ps c)"
| "scan_step Num0 ps c = state0 ps c"
| "scan_step Dot ps c = (if isDigit c then Some (Dot0, ps) else None)"
| "scan_step Dot0 ps c =
     (if isDigit c then Some (Dot0, ps)
      else if c = CHR ''e'' \<or> c = CHR ''E'' then Some (Exp, ps)
      else stateEndValue ps c)"
| "scan_step Exp ps c =
     (if c = CHR ''+'' \<or> c = CHR ''-'' then Some (ExpSign, ps) else stateESign ps c)"
| "scan_step ExpSign ps c = stateESign ps c"
| "scan_step Exp0 ps c = (if isDigit c then Some (Exp0, ps) else stateEndValue ps c)"
| "scan_step LitT ps c = expect CHR ''r'' LitTr ps c"
| "scan_step LitTr ps c = expect CHR ''u'' LitTru ps c"
| "scan_step LitTru ps c = expect CHR ''e'' EndValue ps c"
| "scan_step LitF ps c = expect CHR ''a'' LitFa ps c"
| "scan_step LitFa ps c = expect CHR ''l'' LitFal ps c"
| "scan_step LitFal ps c = expect CHR ''s'' LitFals ps c"
| "scan_step LitFals ps c = expect CHR ''e'' EndValue ps c"
| "scan_step LitN ps c = expect CHR ''u'' LitNu ps c"
| "scan_step LitNu ps c = expect CHR ''l'' LitNul ps c"
| "scan_step LitNul ps c = expect CHR ''l'' EndValue ps c"

definition in_number :: "jstate \<Rightarrow> bool" where
  "in_number st \<longleftrightarrow> st \<in> {Neg, Num1, Num0, Dot, Dot0, Exp, ExpSign, Exp0}"

text \<open>
  The scanner with the number literals: the state, the stack, the literal being read
  and the literals read so far.
\<close>

record scanner =
  step :: jstate
  parseState :: "pstate list"
  literal :: string
  numbers :: "string list"

definition scanner_reset :: scanner where
  "scanner_reset = \<lparr> step = BeginValue, parseState = [], literal = [], numbers = [] \<rparr>"

definition scan_byte :: "scanner \<Rightarrow> char \<Rightarrow> scanner option" where
  "scan_byte s c =
     (case scan_step (step s) (parseState s) c of
        None \<Rightarrow> None
      | Some (st, ps) \<Rightarrow>
          Some \<lparr> step = st, parseState = ps,
                 literal = (if in_number st then literal s @ [c] else []),
                 numbers = (if in_number (step s) \<and> \<not> in_number st
                            then numbers s @ [literal s] else numbers s) \<rparr>)"

fun scan_bytes :: "scanner \<Rightarrow> string \<Rightarrow> scanner option" where
  "scan_bytes s [] = Some s"
| "scan_bytes s (c # cs) = (case scan_byte s c of None \<Rightarrow> None | Some s' \<Rightarrow> scan_bytes s' cs)"

text \<open>
  \<^verbatim>\<open>checkValid\<close>: every byte, then \<^verbatim>\<open>eof\<close>, which accepts when the top-level value
  is complete, if need be after one more step on a space. The result is the number
  literals of the document, \<open>None\<close> for a syntax error.
\<close>

definition checkValid :: "string \<Rightarrow> string list option" where
  "checkValid data =
     (case scan_bytes scanner_reset data of
        None \<Rightarrow> None
      | Some s \<Rightarrow>
          if step s = EndTop then Some (numbers s)
          else case scan_byte s CHR '' '' of
                 None \<Rightarrow> None
               | Some s' \<Rightarrow> if step s' = EndTop then Some (numbers s') else None)"

text \<open>
  A number literal is converted by \<^verbatim>\<open>strconv.ParseFloat(s, 64)\<close>, which fails exactly
  when the value rounds to infinity: when its magnitude is at least \<open>2^1024 - 2^970\<close>,
  halfway between the largest float64 and \<open>2^1024\<close>. The magnitude of the literal is
  its digits times a power of ten, compared exactly.
\<close>

definition digits_val :: "string \<Rightarrow> int" where
  "digits_val ds = foldl (\<lambda>n c. 10 * n + (of_char c - 48)) 0 ds"

definition float64_overflow :: "string \<Rightarrow> bool" where
  "float64_overflow lit =
     (let s = (case lit of c # cs \<Rightarrow> if c = CHR ''-'' then cs else lit | [] \<Rightarrow> []);
          ip = takeWhile isDigit s;
          r1 = dropWhile isDigit s;
          fr = (case r1 of c # cs \<Rightarrow> if c = CHR ''.'' then takeWhile isDigit cs else [] | [] \<Rightarrow> []);
          r2 = (case r1 of c # cs \<Rightarrow> if c = CHR ''.'' then dropWhile isDigit cs else r1 | [] \<Rightarrow> []);
          ex = (case r2 of [] \<Rightarrow> 0
                | _ # sg # ds \<Rightarrow>
                    if sg = CHR ''-'' then - digits_val ds
                    else if sg = CHR ''+'' then digits_val ds
                    else digits_val (sg # ds)
                | _ \<Rightarrow> 0);
          e10 = ex - int (length fr);
          m = digits_val (ip @ fr);
          limit = (2::int) ^ 1024 - 2 ^ 970
      in if 0 \<le> e10 then limit \<le> m * 10 ^ nat e10 else limit * 10 ^ nat (- e10) \<le> m)"

text \<open>
  \<^verbatim>\<open>json.Unmarshal(data, &m)\<close> for \<^verbatim>\<open>m\<close> of type \<^verbatim>\<open>map[string]interface{}\<close>:
  a syntax error fails; a top-level object is decoded, its numbers into float64, and a
  number out of range fails; the literal \<^verbatim>\<open>null\<close> succeeds and leaves the map nil;
  any other top-level value (array, string, number, boolean) is a type error.
\<close>

datatype unmarshal = Decoded_object | Decoded_null | Unmarshal_error

definition json_Unmarshal_map :: "string \<Rightarrow> unmarshal" where
  "json_Unmarshal_map data =
     (case checkValid data of
        None \<Rightarrow> Unmarshal_error
      | Some nums \<Rightarrow>
          (case dropWhile isSpace data of
             [] \<Rightarrow> Unmarshal_error
           | c # _ \<Rightarrow>
               if c = CHR ''{'' then
                 (if list_ex float64_overflow nums then Unmarshal_error else Decoded_object)
               else if c = CHR ''n'' then Decoded_null
               else Unmarshal_error))"

text \<open>\<^verbatim>\<open>json.Valid\<close>: the document is syntactically valid JSON.\<close>

definition json_Valid :: "string \<Rightarrow> bool" where
  "json_Valid data = (checkValid data \<noteq> None)"

section \<open>Request parameters (parseRequestParams)\<close>

text \<open>
  \<^verbatim>\<open>params\<close> is a Go map, kept like \<^verbatim>\<open>pathParams\<close> as an association list with
  distinct keys and read through \<open>map_of\<close>. The query arguments and the headers are the
  pairs that \<^verbatim>\<open>VisitAll\<close> passes to its callback, in the order of the visits.
\<close>

definition parseRequestParams ::
  "(string \<times> string) list \<Rightarrow> (string \<times> string) list \<Rightarrow> params \<Rightarrow> params" where
  "parseRequestParams queryArgs headers pathParams =
     (let params = fold (\<lambda>(k, v). AList.update k v) pathParams [];
          params = fold (\<lambda>(key, value). AList.update key value) queryArgs params;
          params = fold (\<lambda>(key, value). AList.update (''header:'' @ ToLower key) value) headers params
      in params)"

section \<open>Message templates (processMessageTemplate)\<close>

text \<open>
  \<^verbatim>\<open>strings.ReplaceAll(result, placeholder, v)\<close> for a placeholder \<^verbatim>\<open>"{" + k + "}"\<close>,
  which is never empty: the occurrences are replaced from left to right without overlap.
\<close>

function ReplaceAll :: "string \<Rightarrow> string \<Rightarrow> string \<Rightarrow> string" where
  "ReplaceAll [] old new = []"
| "ReplaceAll (c # cs) old new =
     (if old \<noteq> [] \<and> prefix old (c # cs) then new @ ReplaceAll (drop (length old) (c # cs)) old new
      else c # ReplaceAll cs old new)"
  by pat_completeness auto
termination
  by (relation "measure (\<lambda>(s, old, new). length s)") (auto simp: neq_Nil_conv)

text \<open>
  \<^verbatim>\<open>processMessageTemplate\<close>. When the template decodes as a JSON object, the source
  substitutes inside the decoded value (\<^verbatim>\<open>processJSONFields\<close>) and encodes it again with
  \<^verbatim>\<open>json.Marshal\<close>, which rewrites numbers as float64 values. That branch is the
  parameter \<open>json_branch\<close>: its result for a template and the parameters, \<open>None\<close> when
  \<^verbatim>\<open>json.Marshal\<close> fails. Otherwise every parameter's placeholder is replaced in the
  template as plain text, in the order in which the \<^verbatim>\<open>range\<close> over the Go map yields the
  parameters. With at most one parameter there is one order; with more the runtime picks
  one, which is left unspecified (\<open>range_order\<close>).
\<close>

definition range_order :: "params \<Rightarrow> params" where
  "range_order = undefined"

definition processMessageTemplate ::
  "(string \<Rightarrow> params \<Rightarrow> string option) \<Rightarrow> string \<Rightarrow> params \<Rightarrow> string" where
  "processMessageTemplate json_branch message pathParams =
     (case (if json_Unmarshal_map message \<noteq> Unmarshal_error then json_branch message pathParams
            else None) of
        Some result \<Rightarrow> result
      | None \<Rightarrow>
          fold (\<lambda>(k, v) result. ReplaceAll result (''{'' @ k @ ''}'') v)
            (if length pathParams \<le> 1 then pathParams else range_order pathParams) message)"

section \<open>Dispatcher (requestHandler)\<close>

text \<open>What the handler reads of the \<^verbatim>\<open>fasthttp.RequestCtx\<close>.\<close>

record Request =
  ReqPath :: string
  ReqMethod :: string
  QueryArgs :: "(string \<times> string) list"
  Headers :: "(string \<times> string) list"
  ContentType :: string
  ReqBody :: string

text \<open>
  \<^verbatim>\<open>ApiResponse\<close> and \<^verbatim>\<open>ErrorResponse\<close>. The \<^verbatim>\<open>Data\<close> field holds nothing, the path
  parameters, or the debug map with its optional entries \<^verbatim>\<open>params\<close> and \<^verbatim>\<open>body\<close>
  (the decoded request body, kept as its text). The description of an error is a fixed
  text or the message of the JSON error for a request body.
\<close>

datatype data = NoData | PathParams params | DebugData "params option" "string option"

record ApiResponse =
  ApiMessage :: string
  Data :: data

datatype description = Fixed string | ErrorText string

record ErrorResponse =
  Error :: string
  StatusCode :: nat
  ErrDescription :: description

text \<open>
  The response: the documentation handlers are kept as they are called; otherwise the
  status, the \<^verbatim>\<open>Content-Type\<close> header if the handler sets it, and the body, which is a
  text written as it is or the JSON encoding of an \<^verbatim>\<open>ApiResponse\<close> or an
  \<^verbatim>\<open>ErrorResponse\<close>. Encoding these values with \<^verbatim>\<open>json.NewEncoder\<close> cannot fail, so
  the branch for status 500 is not reached.
\<close>

datatype body = BodyString string | EncodedApi ApiResponse | EncodedError ErrorResponse

datatype response = ServeOpenAPI | ServeSwaggerUI | Reply nat "string option" body

definition Join :: "string list \<Rightarrow> string \<Rightarrow> string" where
  "Join elems sep = (case elems of [] \<Rightarrow> [] | e # es \<Rightarrow> e @ concat (map (\<lambda>x. sep @ x) es))"

definition Contains :: "string \<Rightarrow> string \<Rightarrow> bool" where
  "Contains s substr = list_ex (prefix substr) (suffixes s)"

text \<open>Lines 631-639: the methods of the routes whose path is, or whose pattern matches, the path.\<close>

fun supportedMethods :: "routes \<Rightarrow> string \<Rightarrow> string list" where
  "supportedMethods [] path = []"
| "supportedMethods ((key, rt) # rest) path =
     (if Path rt = path \<or> (case PathRegex rt of None \<Rightarrow> False | Some re \<Rightarrow> MatchString re path)
      then Method rt # supportedMethods rest path
      else supportedMethods rest path)"

definition notFound :: "routes \<Rightarrow> string \<Rightarrow> string \<Rightarrow> response" where
  "notFound routes path method =
     (let supported = supportedMethods routes path;
          errorMsg = ''Route not found for '' @ method @ '' '' @ path;
          errorMsg = (if length supported > 0
                      then errorMsg @ '' - Try using method '' @ Join supported '' or ''
                      else errorMsg)
      in Reply 404 (Some ''application/json'')
           (EncodedError \<lparr> Error = errorMsg, StatusCode = 404,
                            ErrDescription = Fixed ''The requested endpoint does not exist'' \<rparr>))"

definition requestHandler ::
  "routes \<Rightarrow> bool \<Rightarrow> (string \<Rightarrow> params \<Rightarrow> string option) \<Rightarrow> Request \<Rightarrow> response" where
  "requestHandler routes includeDebugData json_branch ctx =
     (let path = ReqPath ctx; method = ReqMethod ctx in
      if path = ''/openapi.json'' then ServeOpenAPI
      else if prefix ''/swagger'' path then ServeSwaggerUI
      else case findMatchingRoute routes path method of
        (route, pathParams, False) \<Rightarrow> notFound routes path method
      | (route, pathParams, True) \<Rightarrow>
          (let params = parseRequestParams (QueryArgs ctx) (Headers ctx) pathParams;
               decoded = (if length (ReqBody ctx) > 0 \<and> Contains (ContentType ctx) ''application/json''
                          then Some (json_Unmarshal_map (ReqBody ctx)) else None)
           in if decoded = Some Unmarshal_error then
                Reply 400 None
                  (EncodedError \<lparr> Error = ''Invalid JSON body'', StatusCode = 400,
                                   ErrDescription = ErrorText (ReqBody ctx) \<rparr>)
              else
                (let requestBody = (if decoded = Some Decoded_object then Some (ReqBody ctx) else None);
                     processedMessage = processMessageTemplate json_branch (Message route) pathParams
                 in if json_Unmarshal_map processedMessage \<noteq> Unmarshal_error then
                      Reply 200 (Some ''application/json'') (BodyString processedMessage)
                    else
                      Reply 200 (Some ''application/json'')
                        (EncodedApi \<lparr> ApiMessage = processedMessage,
                           Data = (if includeDebugData then
                                     (if length params > 0 \<or> requestBody \<noteq> None
                                      then DebugData (if length params > 0 then Some params else None)
                                             requestBody
                                      else NoData)
                                   else if length pathParams > 0 then PathParams pathParams
                                   else NoData) \<rparr>))))"

section \<open>Path patterns as the specification describes them\<close>

text \<open>
  A path pattern as the specification describes it: text and named placeholders, in the
  order of declaration. A name is not empty and free of braces. The text outside the
  placeholders holds no brace and none of the characters that \<^verbatim>\<open>regexp\<close> reads as an
  operator, \<^verbatim>\<open>\ + * ? ( ) | [ ] ^ $\<close>; a dot may occur in it, and so may any byte
  outside ASCII (\<open>plain_seg\<close>). In \<open>wf_seg\<close> the text is well-formed UTF-8 as well.
\<close>

datatype seg = Literal string | Param string

fun pattern_of :: "seg list \<Rightarrow> string" where
  "pattern_of [] = []"
| "pattern_of (Literal l # segs) = l @ pattern_of segs"
| "pattern_of (Param name # segs) = ''{'' @ name @ ''}'' @ pattern_of segs"

definition literal_char :: "char \<Rightarrow> bool" where
  "literal_char c \<longleftrightarrow> c \<notin> set (CHR 0x5C # ''+*?()|[]{}^$'')"

fun plain_seg :: "seg \<Rightarrow> bool" where
  "plain_seg (Literal l) = list_all literal_char l"
| "plain_seg (Param name) = (name \<noteq> [] \<and> list_all not_brace name)"

fun wf_seg :: "seg \<Rightarrow> bool" where
  "wf_seg (Literal l) = (list_all literal_char l \<and> valid_utf8 l)"
| "wf_seg (Param name) = (name \<noteq> [] \<and> list_all not_brace name)"

fun param_names :: "seg list \<Rightarrow> string list" where
  "param_names [] = []"
| "param_names (Literal l # segs) = param_names segs"
| "param_names (Param name # segs) = name # param_names segs"

text \<open>
  The program of such a pattern: every rune of the text stands for itself, but the dot,
  which stands for any rune other than a newline; every placeholder is the group.
\<close>

definition lit_inst :: "string \<Rightarrow> inst" where
  "lit_inst r = (if r = ''.'' then AnyNotNL else case r of [c] \<Rightarrow> Lit c | _ \<Rightarrow> LitRune r)"

fun prog_of :: "seg list \<Rightarrow> inst list" where
  "prog_of [] = []"
| "prog_of (Literal l # segs) = map lit_inst (runes l) @ prog_of segs"
| "prog_of (Param name # segs) = Capture # prog_of segs"

text \<open>
  A path reads as the pattern with the captured strings at the placeholders: a rune of
  the pattern's text and a rune of the path agree when the first is the dot and the second
  is not a newline, or when the second has the value of the first (an ill-formed byte of
  the path has the value U+FFFD); \<open>fits\<close> goes through the pattern and the runes of the
  path, with one captured string for every placeholder.
\<close>

definition agrees :: "string \<Rightarrow> string \<Rightarrow> bool" where
  "agrees p r \<longleftrightarrow> (if p = ''.'' then r \<noteq> [CHR 0x0A] else rune_value r = p)"

fun fits :: "seg list \<Rightarrow> string list \<Rightarrow> string list \<Rightarrow> bool" where
  "fits [] caps rs \<longleftrightarrow> caps = [] \<and> rs = []"
| "fits (Literal l # segs) caps rs \<longleftrightarrow>
     list_all2 agrees (runes l) (take (length (runes l)) rs)
     \<and> fits segs caps (drop (length (runes l)) rs)"
| "fits (Param name # segs) [] rs \<longleftrightarrow> False"
| "fits (Param name # segs) (c # caps) rs \<longleftrightarrow>
     list_ex (\<lambda>m. concat (take m rs) = c \<and> fits segs caps (drop m rs)) [0..<Suc (length rs)]"

text \<open>
  The pattern with the captured strings in place of the placeholders, in order. It is the
  path itself when the text of the pattern has no dot and no rune U+FFFD (\<open>exact_seg\<close>).
\<close>

fun instantiate :: "seg list \<Rightarrow> string list \<Rightarrow> string" where
  "instantiate [] caps = []"
| "instantiate (Literal l # segs) caps = l @ instantiate segs caps"
| "instantiate (Param name # segs) [] = []"
| "instantiate (Param name # segs) (c # caps) = c @ instantiate segs caps"

fun exact_seg :: "seg \<Rightarrow> bool" where
  "exact_seg (Literal l) = (CHR ''.'' \<notin> set l \<and> RuneError \<notin> set (runes l))"
| "exact_seg (Param name) = True"

text \<open>The components of a path: the strings between its slashes.\<close>

definition components :: "string \<Rightarrow> string list" where
  "components path =
     foldr (\<lambda>c acc. if c = CHR ''/'' then [] # acc else (c # hd acc) # tl acc) path [[]]"

text \<open>
  A placeholder stands alone between slashes when the pattern before it is empty or ends
  with a literal slash, and the pattern after it is empty or begins with a literal slash.
\<close>

definition ends_slash :: "seg list \<Rightarrow> bool" where
  "ends_slash pre \<longleftrightarrow>
     pre = [] \<or> (case last pre of Literal l \<Rightarrow> l \<noteq> [] \<and> last l = CHR ''/'' | Param name \<Rightarrow> False)"

definition starts_slash :: "seg list \<Rightarrow> bool" where
  "starts_slash post \<longleftrightarrow>
     post = [] \<or> (case hd post of Literal l \<Rightarrow> l \<noteq> [] \<and> hd l = CHR ''/'' | Param name \<Rightarrow> False)"

text \<open>What the placeholder pattern finds in such a pattern, and the text after the replacement.\<close>

fun pieces_of :: "seg list \<Rightarrow> piece list" where
  "pieces_of [] = []"
| "pieces_of (Literal l # segs) = map Text l @ pieces_of segs"
| "pieces_of (Param name # segs) = Placeholder name # pieces_of segs"

fun group_text :: "seg list \<Rightarrow> string" where
  "group_text [] = []"
| "group_text (Literal l # segs) = l @ group_text segs"
| "group_text (Param name # segs) = ''([^/]+)'' @ group_text segs"

text \<open>What holds of every rune of an input: it is not empty, and it holds a slash only if it is the slash.\<close>

definition sound_rune :: "string \<Rightarrow> bool" where
  "sound_rune r \<longleftrightarrow> r \<noteq> [] \<and> (CHR ''/'' \<in> set r \<longrightarrow> r = [CHR ''/''])"

section \<open>Example registries\<close>

definition users_id_route :: RouteInfo where
  "users_id_route =
     \<lparr> Path = ''/users/{id}'', Method = ''GET'', Message = ''user {id}'', Description = ''one user'',
       Parameters = [], Responses = standard_responses,
       PathRegex = Some (Prog [Lit CHR ''/'', Lit CHR ''u'', Lit CHR ''s'', Lit CHR ''e'', Lit CHR ''r'',
                         Lit CHR ''s'', Lit CHR ''/'', Capture]),
       ParamNames = [''id''] \<rparr>"

definition users_me_route :: RouteInfo where
  "users_me_route =
     \<lparr> Path = ''/users/me'', Method = ''GET'', Message = ''it is me'', Description = ''myself'',
       Parameters = [], Responses = standard_responses,
       PathRegex = Some (Prog [Lit CHR ''/'', Lit CHR ''u'', Lit CHR ''s'', Lit CHR ''e'', Lit CHR ''r'',
                         Lit CHR ''s'', Lit CHR ''/'', Lit CHR ''m'', Lit CHR ''e'']),
       ParamNames = [] \<rparr>"

definition users_routes :: routes where
  "users_routes =
     RegisterRoute (Some ''/users/me'') (Some ''get'') (Some ''it is me'') (Some ''myself'')
       (RegisterRoute (Some ''/users/{id}'') (Some ''get'') (Some ''user {id}'') (Some ''one user'') [])"

definition dot_route :: RouteInfo where
  "dot_route =
     \<lparr> Path = ''/a.c'', Method = ''GET'', Message = ''dot'', Description = ''a dotted path'',
       Parameters = [], Responses = standard_responses,
       PathRegex = Some (Prog [Lit CHR ''/'', Lit CHR ''a'', AnyNotNL, Lit CHR ''c'']),
       ParamNames = [] \<rparr>"

definition dot_routes :: routes where
  "dot_routes = RegisterRoute (Some ''/a.c'') (Some ''GET'') (Some ''dot'') (Some ''a dotted path'') []"

definition list_routes :: routes where
  "list_routes =
     RegisterRoute (Some ''/ok'') (Some ''GET'') (Some ''{\"ok\":true}'') (Some ''an object'')
       (RegisterRoute (Some ''/list'') (Some ''GET'') (Some ''[1]'') (Some ''a list'') [])"

definition get_request :: "string \<Rightarrow> Request" where
  "get_request path =
     \<lparr> ReqPath = path, ReqMethod = ''GET'', QueryArgs = [], Headers = [], ContentType = [], ReqBody = [] \<rparr>"

definition ok_route :: RouteInfo where
  "ok_route =
     \<lparr> Path = ''/ok'', Method = ''GET'', Message = ''{\"ok\":true}'', Description = ''an object'',
       Parameters = [], Responses = standard_responses,
       PathRegex = Some (Prog [Lit CHR ''/'', Lit CHR ''o'', Lit CHR ''k'']),
       ParamNames = [] \<rparr>"

definition list_route :: RouteInfo where
  "list_route =
     \<lparr> Path = ''/list'', Method = ''GET'', Message = ''[1]'', Description = ''a list'',
       Parameters = [], Responses = standard_responses,
       PathRegex = Some (Prog [Lit CHR ''/'', Lit CHR ''l'', Lit CHR ''i'', Lit CHR ''s'', Lit CHR ''t'']),
       ParamNames = [] \<rparr>"

definition collision_route :: RouteInfo where
  "collision_route =
     \<lparr> Path = ''/x'', Method = ''YGET'', Message = ''x'', Description = ''another method'',
       Parameters = [], Responses = standard_responses,
       PathRegex = Some (Prog [Lit CHR ''/'', Lit CHR ''x'']),
       ParamNames = [] \<rparr>"

definition collision_routes :: routes where
  "collision_routes = RegisterRoute (Some ''/x'') (Some ''yget'') (Some ''x'') (Some ''another method'') []"

definition group_route :: RouteInfo where
  "group_route =
     \<lparr> Path = ''/([^/]+)/{id}'', Method = ''GET'', Message = ''item {id}'', Description = ''a group'',
       Parameters = [], Responses = standard_responses,
       PathRegex = Some (Prog [Lit CHR ''/'', Capture, Lit CHR ''/'', Capture]),
       ParamNames = [''id''] \<rparr>"

definition group_routes :: routes where
  "group_routes =
     RegisterRoute (Some ''/([^/]+)/{id}'') (Some ''GET'') (Some ''item {id}'') (Some ''a group'') []"

section \<open>Theorems\<close>

lemma applyMiddleware_loop_take:
  "i \<le> length ms \<Longrightarrow> applyMiddleware_loop ms i r = foldr (\<lambda>m h. m h) (take i ms) r"
proof (induction i arbitrary: r)
  case 0
  then show ?case by simp
next
  case (Suc i)
  then have "take (Suc i) ms = take i ms @ [ms ! i]"
    by (simp add: take_Suc_conv_app_nth)
  with Suc show ?case by simp
qed

lemma applyMiddleware_foldr: "applyMiddleware ms h = foldr (\<lambda>m r. m r) ms h"
  by (simp add: applyMiddleware_def applyMiddleware_loop_take)

lemma applyMiddleware_bracketing:
  "applyMiddleware (map bracketing xs) h s = h (s @ map Inl xs) @ map Inr (rev xs)"
  by (induction xs arbitrary: s) (simp_all add: applyMiddleware_foldr bracketing_def)

text \<open>
  C6. For middlewares \<open>m1 .. mk\<close> in registration order and a terminal handler \<open>h\<close>,
  the effective handler is \<open>m1 (m2 (... (mk h)))\<close>: the first registered middleware is the
  outermost wrapper. Observed with bracketing middlewares on an event log, the work
  before the wrapped call runs in registration order, then the handler, then the work
  after the call in reverse registration order, so the first middleware is first and last.
\<close>

theorem applyMiddleware_nesting:
  "applyMiddleware [] h = h
   \<and> applyMiddleware (m # ms) h = m (applyMiddleware ms h)
   \<and> applyMiddleware ms h = foldr (\<lambda>m r. m r) ms h
   \<and> applyMiddleware (map bracketing xs) (\<lambda>s. s @ [Inl handler]) s0
       = s0 @ map Inl xs @ [Inl handler] @ map Inr (rev xs)"
proof -
  have "applyMiddleware [] h = h"
    by (simp add: applyMiddleware_foldr)
  moreover have "applyMiddleware (m # ms) h = m (applyMiddleware ms h)"
    by (simp add: applyMiddleware_foldr)
  moreover have "applyMiddleware ms h = foldr (\<lambda>m r. m r) ms h"
    by (rule applyMiddleware_foldr)
  moreover have "applyMiddleware (map bracketing xs) (\<lambda>s. s @ [Inl handler]) s0
       = s0 @ map Inl xs @ [Inl handler] @ map Inr (rev xs)"
    by (simp add: applyMiddleware_bracketing)
  ultimately show ?thesis by blast
qed

text \<open>
  C9. Each numeric field of the configuration is set only when the supplied value,
  read as a signed 64-bit integer, is positive, and the port only when a non-empty
  string is supplied; otherwise the field keeps its previous value. The two flags are
  never touched. In particular a call with \<open>maxBodySize = 0\<close> leaves the previous
  maximal body size unchanged.
\<close>

theorem SetServerConfig_positive_only:
  "ReadTimeout (SetServerConfig rt wt it mb cc port cfg)
      = (if 0 < sint rt then rt * Millisecond else ReadTimeout cfg)
   \<and> WriteTimeout (SetServerConfig rt wt it mb cc port cfg)
      = (if 0 < sint wt then wt * Millisecond else WriteTimeout cfg)
   \<and> IdleTimeout (SetServerConfig rt wt it mb cc port cfg)
      = (if 0 < sint it then it * Millisecond else IdleTimeout cfg)
   \<and> MaxRequestBodySize (SetServerConfig rt wt it mb cc port cfg)
      = (if 0 < sint mb then mb else MaxRequestBodySize cfg)
   \<and> Concurrency (SetServerConfig rt wt it mb cc port cfg)
      = (if 0 < sint cc then cc else Concurrency cfg)
   \<and> Port (SetServerConfig rt wt it mb cc port cfg)
      = (case port of None \<Rightarrow> Port cfg | Some p \<Rightarrow> if p = [] then Port cfg else p)
   \<and> TCPKeepAlive (SetServerConfig rt wt it mb cc port cfg) = TCPKeepAlive cfg
   \<and> ReduceMemoryUsage (SetServerConfig rt wt it mb cc port cfg) = ReduceMemoryUsage cfg
   \<and> MaxRequestBodySize (SetServerConfig rt wt it 0 cc port cfg) = MaxRequestBodySize cfg"
  by (simp add: SetServerConfig_def Let_def word_sless_alt split: option.split)

lemma timestamps_prune:
  "timestamps (prune cl now ip) ip = filter (\<lambda>t. now - t < windowSize) (timestamps cl ip)"
  by (simp add: timestamps_def prune_def split: option.split)

lemma prune_other: "ip' \<noteq> ip \<Longrightarrow> prune cl now ip ip' = cl ip'"
  by (simp add: prune_def split: option.split)

lemma rateLimiter_locked_eq:
  "rateLimiter_locked cl now ip =
     (let ts = filter (\<lambda>t. now - t < windowSize) (timestamps cl ip) in
      if maxReqs \<le> length ts then (cl(ip \<mapsto> ts), False)
      else (cl(ip \<mapsto> ts @ [now]), True))"
proof (cases "cl ip")
  case None
  then show ?thesis
    by (simp add: rateLimiter_locked_def prune_def timestamps_def maxReqs_def)
next
  case (Some ts)
  then show ?thesis
    by (simp add: rateLimiter_locked_def prune_def timestamps_def Let_def)
qed

lemma serve_accepts:
  "length (timestamps cl ip) + length nows \<le> maxReqs
   \<Longrightarrow> \<forall>t \<in> set (timestamps cl ip) \<union> set nows. \<forall>n \<in> set nows. n - t < windowSize
   \<Longrightarrow> snd (serve cl ip nows) = replicate (length nows) True
       \<and> timestamps (fst (serve cl ip nows)) ip = timestamps cl ip @ nows"
proof (induction nows arbitrary: cl)
  case Nil
  then show ?case by simp
next
  case (Cons now nows)
  let ?ts = "timestamps cl ip"
  have keep: "filter (\<lambda>t. now - t < windowSize) ?ts = ?ts"
    using Cons.prems(2) by (auto intro: filter_True)
  have lt: "\<not> maxReqs \<le> length ?ts"
    using Cons.prems(1) by simp
  have step: "rateLimiter_locked cl now ip = (cl(ip \<mapsto> ?ts @ [now]), True)"
    using keep lt by (simp add: rateLimiter_locked_eq)
  let ?cl1 = "cl(ip \<mapsto> ?ts @ [now])"
  have ts1: "timestamps ?cl1 ip = ?ts @ [now]"
    by (simp add: timestamps_def)
  have "length (timestamps ?cl1 ip) + length nows \<le> maxReqs"
    using Cons.prems(1) ts1 by simp
  moreover have "\<forall>t \<in> set (timestamps ?cl1 ip) \<union> set nows. \<forall>n \<in> set nows. n - t < windowSize"
    using Cons.prems(2) ts1 by auto
  ultimately have IH: "snd (serve ?cl1 ip nows) = replicate (length nows) True
       \<and> timestamps (fst (serve ?cl1 ip nows)) ip = timestamps ?cl1 ip @ nows"
    by (rule Cons.IH)
  show ?case
    using IH step ts1 by (simp add: split_beta)
qed

lemma serve_append:
  "serve cl ip (xs @ ys) =
     (fst (serve (fst (serve cl ip xs)) ip ys), snd (serve cl ip xs) @ snd (serve (fst (serve cl ip xs)) ip ys))"
  by (induction xs arbitrary: cl) (simp_all add: split_beta)

lemma sorted_span:
  assumes "sorted (nows :: int list)" and "nows \<noteq> []" and "t \<in> set nows" and "n \<in> set nows"
  shows "n - t \<le> last nows - hd nows"
proof -
  have "hd nows \<le> t"
    using assms(1,2,3) by (cases nows) auto
  moreover have "n \<le> last nows"
  proof -
    obtain xs y where split: "nows = xs @ [y]"
      using assms(2) by (metis append_butlast_last_id)
    then have "\<forall>x \<in> set xs. x \<le> y"
      using assms(1) by (simp add: sorted_append)
    then show ?thesis
      using assms(4) split by auto
  qed
  ultimately show ?thesis by simp
qed

text \<open>
  C7. With the cap of 100 and the window of 60 seconds, a request of a client at time
  \<open>now\<close> first drops the client's timestamps that are a window or more old; it is
  rejected with status 429 and the error body, a JSON object with the fields
  \<^verbatim>\<open>error\<close>, \<^verbatim>\<open>status_code\<close> and \<^verbatim>\<open>description\<close>, exactly when 100 or more
  timestamps remain (the wrapped handler does not run then), and otherwise its time is
  recorded and the wrapped handler runs.
  Hence of 101 requests of a new client within one window the first 100 pass and the
  101st is rejected, and a request that arrives when every recorded timestamp is a full
  window old is accepted.
\<close>

theorem rateLimiter_window_cap:
  "rateLimiterMiddleware handler now (cl, ctx) =
     (let ts = filter (\<lambda>t. now - t < 60 * 1000000000) (timestamps cl (RemoteAddr ctx)) in
      if 100 \<le> length ts
      then (cl(RemoteAddr ctx \<mapsto> ts), ctx\<lparr>RespStatus := 429,
              RespBody := ''{\"error\":\"Rate limit exceeded\",\"status_code\":429,\"description\":\"Too many requests, please try again later\"}''\<rparr>)
      else (cl(RemoteAddr ctx \<mapsto> ts @ [now]), handler ctx))
   \<and> (cl ip = None \<and> sorted nows \<and> length nows = 101 \<and> last nows - hd nows < windowSize
        \<longrightarrow> snd (serve cl ip nows) = replicate 100 True @ [False])
   \<and> ((\<forall>t \<in> set (timestamps cl ip). windowSize \<le> later - t)
        \<longrightarrow> rateLimiter_locked cl later ip = (cl(ip \<mapsto> [later]), True))
   \<and> json_Unmarshal_map
         ''{\"error\":\"Rate limit exceeded\",\"status_code\":429,\"description\":\"Too many requests, please try again later\"}''
       = Decoded_object"
proof (intro conjI impI)
  show "rateLimiterMiddleware handler now (cl, ctx) =
     (let ts = filter (\<lambda>t. now - t < 60 * 1000000000) (timestamps cl (RemoteAddr ctx)) in
      if 100 \<le> length ts
      then (cl(RemoteAddr ctx \<mapsto> ts), ctx\<lparr>RespStatus := 429,
              RespBody := ''{\"error\":\"Rate limit exceeded\",\"status_code\":429,\"description\":\"Too many requests, please try again later\"}''\<rparr>)
      else (cl(RemoteAddr ctx \<mapsto> ts @ [now]), handler ctx))"
    by (simp add: rateLimiterMiddleware_def rateLimiter_locked_eq Let_def maxReqs_def windowSize_def
        rateLimitBody_def)
next
  assume a: "cl ip = None \<and> sorted nows \<and> length nows = 101 \<and> last nows - hd nows < windowSize"
  then have ne: "nows \<noteq> []" by auto
  have win: "\<forall>t \<in> set nows. \<forall>n \<in> set nows. n - t < windowSize"
    using sorted_span [of nows] a ne by fastforce
  define xs where "xs = butlast nows"
  define y where "y = last nows"
  have nows: "nows = xs @ [y]"
    using ne by (simp add: xs_def y_def)
  have lxs: "length xs = 100"
    using a by (simp add: xs_def)
  have ts0: "timestamps cl ip = []"
    using a by (simp add: timestamps_def)
  have "snd (serve cl ip xs) = replicate (length xs) True
       \<and> timestamps (fst (serve cl ip xs)) ip = timestamps cl ip @ xs"
  proof (rule serve_accepts)
    show "length (timestamps cl ip) + length xs \<le> maxReqs"
      using ts0 lxs by (simp add: maxReqs_def)
    show "\<forall>t \<in> set (timestamps cl ip) \<union> set xs. \<forall>n \<in> set xs. n - t < windowSize"
      using win ts0 nows by auto
  qed
  then have first: "snd (serve cl ip xs) = replicate 100 True"
    and stored: "timestamps (fst (serve cl ip xs)) ip = xs"
    using lxs ts0 by simp_all
  have keep: "filter (\<lambda>t. y - t < windowSize) xs = xs"
    using win nows by (auto intro: filter_True)
  have "rateLimiter_locked (fst (serve cl ip xs)) y ip = ((fst (serve cl ip xs))(ip \<mapsto> xs), False)"
    using stored keep lxs by (simp add: rateLimiter_locked_eq maxReqs_def)
  then have "snd (serve (fst (serve cl ip xs)) ip [y]) = [False]"
    by simp
  then show "snd (serve cl ip nows) = replicate 100 True @ [False]"
    using first by (simp add: nows serve_append)
next
  assume "\<forall>t \<in> set (timestamps cl ip). windowSize \<le> later - t"
  then have "filter (\<lambda>t. later - t < windowSize) (timestamps cl ip) = []"
    by (auto simp: filter_empty_conv)
  then show "rateLimiter_locked cl later ip = (cl(ip \<mapsto> [later]), True)"
    by (simp add: rateLimiter_locked_eq maxReqs_def)
next
  show "json_Unmarshal_map
         ''{\"error\":\"Rate limit exceeded\",\"status_code\":429,\"description\":\"Too many requests, please try again later\"}''
       = Decoded_object"
    by code_simp
qed

theorem rateLimiter_window_cap_witness:
  "snd (serve Map.empty ''10.0.0.7:4242'' (replicate 101 5)) = replicate 100 True @ [False]
   \<and> rateLimiter_locked (Map.empty(''10.0.0.7:4242'' \<mapsto> [5, 6])) 60000000006 ''10.0.0.7:4242''
       = (Map.empty(''10.0.0.7:4242'' \<mapsto> [60000000006]), True)
   \<and> rateLimiterMiddleware (\<lambda>c. c\<lparr>RespBody := ''ok''\<rparr>) 7
        (Map.empty, \<lparr>RemoteAddr = ''10.0.0.7:4242'', RespStatus = 200, RespBody = []\<rparr>)
       = (Map.empty(''10.0.0.7:4242'' \<mapsto> [7]),
          \<lparr>RemoteAddr = ''10.0.0.7:4242'', RespStatus = 200, RespBody = ''ok''\<rparr>)
   \<and> rateLimiterMiddleware (\<lambda>c. c\<lparr>RespBody := ''ok''\<rparr>) 7
        (Map.empty(''10.0.0.7:4242'' \<mapsto> replicate 100 5),
         \<lparr>RemoteAddr = ''10.0.0.7:4242'', RespStatus = 200, RespBody = []\<rparr>)
       = (Map.empty(''10.0.0.7:4242'' \<mapsto> replicate 100 5),
          \<lparr>RemoteAddr = ''10.0.0.7:4242'', RespStatus = 429,
            RespBody = ''{\"error\":\"Rate limit exceeded\",\"status_code\":429,\"description\":\"Too many requests, please try again later\"}''\<rparr>)"
  using rateLimiter_window_cap [where cl = Map.empty and ip = "''10.0.0.7:4242''"
      and nows = "replicate 101 5"
      and ctx = "\<lparr>RemoteAddr = ''10.0.0.7:4242'', RespStatus = 200, RespBody = []\<rparr>"
      and now = 7 and handler = "\<lambda>c. c\<lparr>RespBody := ''ok''\<rparr>" and later = 0]
    rateLimiter_window_cap [where cl = "Map.empty(''10.0.0.7:4242'' \<mapsto> [5, 6])"
      and ip = "''10.0.0.7:4242''" and later = 60000000006 and nows = "[]"
      and ctx = "\<lparr>RemoteAddr = ''10.0.0.7:4242'', RespStatus = 200, RespBody = []\<rparr>"
      and now = 7 and handler = id]
    rateLimiter_window_cap [where cl = "Map.empty(''10.0.0.7:4242'' \<mapsto> replicate 100 5)"
      and ip = "''10.0.0.7:4242''" and later = 0 and nows = "[]"
      and ctx = "\<lparr>RemoteAddr = ''10.0.0.7:4242'', RespStatus = 200, RespBody = []\<rparr>"
      and now = 7 and handler = "\<lambda>c. c\<lparr>RespBody := ''ok''\<rparr>"]
  by (simp add: windowSize_def timestamps_def)

lemma rateLimiter_locked_snd:
  "snd (rateLimiter_locked cl now ip)
     = (length (filter (\<lambda>t. now - t < windowSize) (timestamps cl ip)) < maxReqs)"
  by (auto simp: rateLimiter_locked_eq Let_def)

lemma rateLimiter_locked_timestamps:
  "timestamps (fst (rateLimiter_locked cl now ip)) ip
      = filter (\<lambda>t. now - t < windowSize) (timestamps cl ip)
          @ (if snd (rateLimiter_locked cl now ip) then [now] else [])"
  by (simp add: rateLimiter_locked_eq Let_def timestamps_def)

text \<open>
  C10. A request's time is appended to the client's list if and only if the request is
  passed on to the wrapped handler: after the request the list is the pruned list,
  followed by the request's time exactly when the request passed; no other client's entry
  changes; a rejected request leaves the context with status 429 whatever the wrapped
  handler is. A rejected request therefore does not count later: the next request of the
  client is decided, and leaves the client's list, as if the rejected one had not come.
\<close>

theorem rateLimiter_records_iff_passed:
  "timestamps (fst (rateLimiter_locked cl now ip)) ip
      = filter (\<lambda>t. now - t < windowSize) (timestamps cl ip)
          @ (if snd (rateLimiter_locked cl now ip) then [now] else [])
   \<and> (ip' \<noteq> ip \<longrightarrow> fst (rateLimiter_locked cl now ip) ip' = cl ip')
   \<and> rateLimiterMiddleware handler now (cl, ctx)
      = (fst (rateLimiter_locked cl now (RemoteAddr ctx)),
         if snd (rateLimiter_locked cl now (RemoteAddr ctx)) then handler ctx
         else ctx\<lparr>RespStatus := 429, RespBody := rateLimitBody\<rparr>)
   \<and> (\<not> snd (rateLimiter_locked cl now ip) \<and> now \<le> later
        \<longrightarrow> snd (rateLimiter_locked (fst (rateLimiter_locked cl now ip)) later ip)
              = snd (rateLimiter_locked cl later ip)
          \<and> timestamps (fst (rateLimiter_locked (fst (rateLimiter_locked cl now ip)) later ip)) ip
              = timestamps (fst (rateLimiter_locked cl later ip)) ip)"
proof (intro conjI impI)
  show "timestamps (fst (rateLimiter_locked cl now ip)) ip
      = filter (\<lambda>t. now - t < windowSize) (timestamps cl ip)
          @ (if snd (rateLimiter_locked cl now ip) then [now] else [])"
    by (rule rateLimiter_locked_timestamps)
next
  assume "ip' \<noteq> ip"
  then show "fst (rateLimiter_locked cl now ip) ip' = cl ip'"
    by (simp add: rateLimiter_locked_eq Let_def)
next
  show "rateLimiterMiddleware handler now (cl, ctx)
      = (fst (rateLimiter_locked cl now (RemoteAddr ctx)),
         if snd (rateLimiter_locked cl now (RemoteAddr ctx)) then handler ctx
         else ctx\<lparr>RespStatus := 429, RespBody := rateLimitBody\<rparr>)"
    by (simp add: rateLimiterMiddleware_def split: prod.split bool.split)
next
  assume a: "\<not> snd (rateLimiter_locked cl now ip) \<and> now \<le> later"
  define cl1 where "cl1 = fst (rateLimiter_locked cl now ip)"
  have ts1: "timestamps cl1 ip = filter (\<lambda>t. now - t < windowSize) (timestamps cl ip)"
    using a rateLimiter_locked_timestamps [of cl now ip] by (simp add: cl1_def)
  have "filter (\<lambda>t. later - t < windowSize) (filter (\<lambda>t. now - t < windowSize) (timestamps cl ip))
        = filter (\<lambda>t. later - t < windowSize) (timestamps cl ip)"
    using a by (auto intro: filter_cong)
  then have same: "filter (\<lambda>t. later - t < windowSize) (timestamps cl1 ip)
        = filter (\<lambda>t. later - t < windowSize) (timestamps cl ip)"
    by (simp add: ts1)
  have "snd (rateLimiter_locked cl1 later ip) = snd (rateLimiter_locked cl later ip)"
    by (simp add: rateLimiter_locked_snd same)
  moreover have "timestamps (fst (rateLimiter_locked cl1 later ip)) ip
        = timestamps (fst (rateLimiter_locked cl later ip)) ip"
    by (simp add: rateLimiter_locked_timestamps rateLimiter_locked_snd same)
  ultimately show "snd (rateLimiter_locked (fst (rateLimiter_locked cl now ip)) later ip)
          = snd (rateLimiter_locked cl later ip)"
    and "timestamps (fst (rateLimiter_locked (fst (rateLimiter_locked cl now ip)) later ip)) ip
          = timestamps (fst (rateLimiter_locked cl later ip)) ip"
    by (simp_all add: cl1_def)
qed

theorem rateLimiter_records_iff_passed_witness:
  "\<not> snd (rateLimiter_locked (Map.empty(''c'' \<mapsto> replicate 100 5)) 9 ''c'')
   \<and> timestamps (fst (rateLimiter_locked (Map.empty(''c'' \<mapsto> replicate 100 5)) 9 ''c'')) ''c''
       = replicate 100 5
   \<and> fst (rateLimiter_locked (Map.empty(''c'' \<mapsto> replicate 100 5)) 9 ''c'') ''d'' = None
   \<and> snd (rateLimiter_locked (fst (rateLimiter_locked (Map.empty(''c'' \<mapsto> replicate 100 5)) 9 ''c''))
         60000000005 ''c'')
   \<and> timestamps (fst (rateLimiter_locked
         (fst (rateLimiter_locked (Map.empty(''c'' \<mapsto> replicate 100 5)) 9 ''c'')) 60000000005 ''c'')) ''c''
       = [60000000005]"
proof -
  let ?cl = "Map.empty(''c'' \<mapsto> replicate 100 (5::int))"
  have rej: "\<not> snd (rateLimiter_locked ?cl 9 ''c'')"
    by (simp add: rateLimiter_locked_eq timestamps_def windowSize_def maxReqs_def)
  have later: "rateLimiter_locked ?cl 60000000005 ''c'' = (?cl(''c'' \<mapsto> [60000000005]), True)"
    by (simp add: rateLimiter_locked_eq timestamps_def windowSize_def maxReqs_def)
  have le: "(9::int) \<le> 60000000005" by simp
  show ?thesis
    using rateLimiter_records_iff_passed [where cl = ?cl and now = 9 and ip = "''c''"
        and ip' = "''d''" and later = 60000000005 and ctx = "\<lparr>RemoteAddr = ''c'', RespStatus = 200, RespBody = []\<rparr>"
        and handler = id] rej later le
    by (simp add: timestamps_def windowSize_def)
qed

lemma set_update_subset:
  "set (AList.update k v al) \<subseteq> insert (k, v) (set al)"
  by (induction al) auto

lemma wf_routes_Nil: "wf_routes []"
  by (simp add: wf_routes_def)

lemma wf_routes_store_route:
  assumes "wf_routes routes"
  shows "wf_routes (store_route path method message desc params routes)"
proof -
  obtain re names where c: "pathToRegex path = (re, names)"
    by (cases "pathToRegex path")
  define r where "r = \<lparr> Path = path, Method = method, Message = message, Description = desc,
             Parameters = params, Responses = standard_responses,
             PathRegex = re, ParamNames = names \<rparr>"
  have st: "store_route path method message desc params routes = AList.update (path @ method) r routes"
    by (simp add: store_route_def c r_def)
  have d: "distinct (map fst (AList.update (path @ method) r routes))"
    using assms by (simp add: wf_routes_def distinct_update)
  have "set (AList.update (path @ method) r routes) \<subseteq> insert (path @ method, r) (set routes)"
    by (rule set_update_subset)
  moreover have "path @ method = Path r @ Method r \<and> PathRegex r = fst (pathToRegex (Path r))
       \<and> ParamNames r = snd (pathToRegex (Path r))"
    by (simp add: r_def c)
  ultimately have "\<forall>(key, route) \<in> set (AList.update (path @ method) r routes).
           key = Path route @ Method route
           \<and> PathRegex route = fst (pathToRegex (Path route))
           \<and> ParamNames route = snd (pathToRegex (Path route))"
    using assms unfolding wf_routes_def by blast
  with d show ?thesis
    by (simp add: st wf_routes_def)
qed

lemma wf_routes_RegisterRoute:
  "wf_routes routes \<Longrightarrow> wf_routes (RegisterRoute cPath cMethod cMessage cDesc routes)"
  by (auto simp: RegisterRoute_def wf_routes_store_route split: option.split)

lemma wf_routes_RegisterRouteWithParams:
  "wf_routes routes \<Longrightarrow> wf_routes (RegisterRouteWithParams cPath cMethod cMessage cDesc cParams routes)"
  by (auto simp: RegisterRouteWithParams_def wf_routes_store_route split: option.split)

lemma wf_routes_lookup:
  assumes "wf_routes routes" and "(key, route) \<in> set routes"
  shows "map_of routes (Path route @ Method route) = Some route"
proof -
  have "key = Path route @ Method route"
    using assms unfolding wf_routes_def by blast
  moreover have "map_of routes key = Some route"
    using assms by (simp add: wf_routes_def)
  ultimately show ?thesis by simp
qed

text \<open>
  C2. The registry keeps its invariant from the empty registry through every
  registration. In such a registry, the lookup of the path and method of a stored route
  returns that route through the exact lookup of the key, with no path parameters,
  whatever the other routes are: the scan of the patterns is not reached, even when a
  pattern of another route accepts the path. In particular a route just registered is
  found under its path and upper-cased method.
\<close>

theorem findMatchingRoute_exact:
  "wf_routes []
   \<and> (wf_routes routes \<longrightarrow> wf_routes (RegisterRoute cPath cMethod cMessage cDesc routes))
   \<and> (wf_routes routes \<longrightarrow>
        wf_routes (RegisterRouteWithParams cPath cMethod cMessage cDesc cParams routes))
   \<and> (wf_routes routes \<and> (key, route) \<in> set routes
        \<longrightarrow> findMatchingRoute routes (Path route) (Method route) = (route, [], True))
   \<and> (\<exists>route. Path route = path \<and> Method route = ToUpper method \<and> Message route = message
        \<and> findMatchingRoute (RegisterRoute (Some path) (Some method) (Some message) (Some desc) routes)
             path (ToUpper method) = (route, [], True))"
proof (intro conjI impI)
  show "wf_routes []" by (rule wf_routes_Nil)
next
  assume "wf_routes routes"
  then show "wf_routes (RegisterRoute cPath cMethod cMessage cDesc routes)"
    by (rule wf_routes_RegisterRoute)
next
  assume "wf_routes routes"
  then show "wf_routes (RegisterRouteWithParams cPath cMethod cMessage cDesc cParams routes)"
    by (rule wf_routes_RegisterRouteWithParams)
next
  assume "wf_routes routes \<and> (key, route) \<in> set routes"
  then have "map_of routes (Path route @ Method route) = Some route"
    using wf_routes_lookup by blast
  then show "findMatchingRoute routes (Path route) (Method route) = (route, [], True)"
    by (simp add: findMatchingRoute_def)
next
  obtain re names where c: "pathToRegex path = (re, names)"
    by (cases "pathToRegex path")
  define r where "r = \<lparr> Path = path, Method = ToUpper method, Message = message, Description = desc,
             Parameters = [], Responses = standard_responses,
             PathRegex = re, ParamNames = names \<rparr>"
  have "RegisterRoute (Some path) (Some method) (Some message) (Some desc) routes
          = AList.update (path @ ToUpper method) r routes"
    by (simp add: RegisterRoute_def store_route_def c r_def)
  then have "findMatchingRoute (RegisterRoute (Some path) (Some method) (Some message) (Some desc) routes)
             path (ToUpper method) = (r, [], True)"
    by (simp add: findMatchingRoute_def update_conv')
  moreover have "Path r = path \<and> Method r = ToUpper method \<and> Message r = message"
    by (simp add: r_def)
  ultimately show "\<exists>route. Path route = path \<and> Method route = ToUpper method \<and> Message route = message
        \<and> findMatchingRoute (RegisterRoute (Some path) (Some method) (Some message) (Some desc) routes)
             path (ToUpper method) = (route, [], True)"
    by blast
qed

lemma users_routes_eq:
  "users_routes = [(''/users/{id}GET'', users_id_route), (''/users/meGET'', users_me_route)]"
  by code_simp

theorem findMatchingRoute_exact_witness:
  "wf_routes users_routes
   \<and> (''/users/meGET'', users_me_route) \<in> set users_routes
   \<and> findMatchingRoute users_routes ''/users/me'' ''GET'' = (users_me_route, [], True)
   \<and> scan_routes users_routes ''/users/me'' ''GET'' = (users_id_route, [(''id'', ''me'')], True)"
proof -
  note reg = findMatchingRoute_exact [THEN conjunct2, THEN conjunct1, rule_format]
  have wf: "wf_routes users_routes"
    unfolding users_routes_def
    by (intro reg) (rule findMatchingRoute_exact [THEN conjunct1])
  have mem: "(''/users/meGET'', users_me_route) \<in> set users_routes"
    by (simp add: users_routes_eq)
  have "findMatchingRoute users_routes (Path users_me_route) (Method users_me_route)
          = (users_me_route, [], True)"
    using wf mem
    by (intro findMatchingRoute_exact [THEN conjunct2, THEN conjunct2, THEN conjunct2,
          THEN conjunct1, rule_format]) simp
  moreover have "scan_routes users_routes ''/users/me'' ''GET'' = (users_id_route, [(''id'', ''me'')], True)"
    by code_simp
  ultimately show ?thesis
    using wf mem by (simp add: users_me_route_def)
qed

lemma try_lengths_Some:
  "try_lengths k rs n = Some caps \<Longrightarrow>
     \<exists>m caps'. 0 < m \<and> m \<le> n \<and> k (drop m rs) = Some caps' \<and> caps = concat (take m rs) # caps'"
proof (induction n)
  case 0
  then show ?case by simp
next
  case (Suc n)
  show ?case
  proof (cases "k (drop (Suc n) rs)")
    case None
    with Suc.prems have "try_lengths k rs n = Some caps" by simp
    then obtain m caps' where "0 < m" "m \<le> n" "k (drop m rs) = Some caps'"
        "caps = concat (take m rs) # caps'"
      using Suc.IH by blast
    then show ?thesis
      by (intro exI [of _ m] exI [of _ caps']) simp
  next
    case (Some caps')
    with Suc.prems have "caps = concat (take (Suc n) rs) # caps'" by simp
    with Some show ?thesis
      by (intro exI [of _ "Suc n"] exI [of _ caps']) simp
  qed
qed



lemma map_of_fill_params:
  "map_of (fill_params i names matches pp)
     = map_of pp ++ map_of (rev (zip names (drop (Suc i) matches)))"
proof (induction names arbitrary: i pp)
  case Nil
  then show ?case by simp
next
  case (Cons name names)
  show ?case
  proof (cases "i + 1 < length matches")
    case True
    then have d: "drop (Suc i) matches = matches ! (i + 1) # drop (Suc (Suc i)) matches"
      by (simp add: Cons_nth_drop_Suc)
    have "map_of (fill_params i (name # names) matches pp)
           = (map_of pp)(name \<mapsto> matches ! (i + 1))
               ++ map_of (rev (zip names (drop (Suc (Suc i)) matches)))"
      using True by (simp add: Cons.IH update_conv' fun_upd_def)
    also have "\<dots> = map_of pp ++ map_of (rev (zip (name # names) (drop (Suc i) matches)))"
      by (rule ext) (simp add: d map_add_def split: option.split)
    finally show ?thesis .
  next
    case False
    then show ?thesis by (simp add: Cons.IH)
  qed
qed


lemma map_of_fold_update_key:
  "map_of (fold (\<lambda>(k, v). AList.update (f k) v) kvs al)
     = map_of al ++ map_of (rev (map (\<lambda>(k, v). (f k, v)) kvs))"
proof (induction kvs arbitrary: al)
  case Nil
  then show ?case by simp
next
  case (Cons kv kvs)
  obtain k v where kv: "kv = (k, v)" by (cases kv)
  have "map_of (fold (\<lambda>(k, v). AList.update (f k) v) (kv # kvs) al)
          = (map_of al)(f k \<mapsto> v) ++ map_of (rev (map (\<lambda>(k, v). (f k, v)) kvs))"
    by (simp add: kv Cons.IH update_conv' fun_upd_def)
  also have "\<dots> = map_of al ++ map_of (rev (map (\<lambda>(k, v). (f k, v)) (kv # kvs)))"
    by (rule ext) (simp add: kv map_add_def split: option.split)
  finally show ?case .
qed

lemma map_of_fold_update:
  "map_of (fold (\<lambda>(k, v). AList.update k v) kvs al) = map_of al ++ map_of (rev kvs)"
  using map_of_fold_update_key [of "\<lambda>k. k" kvs al] by simp

lemma distinct_fold_update:
  "distinct (map fst al) \<Longrightarrow> distinct (map fst (fold (\<lambda>(k, v). AList.update (f k) v) kvs al))"
  by (induction kvs arbitrary: al) (auto simp: distinct_update)

lemma map_of_parseRequestParams:
  "map_of (parseRequestParams queryArgs headers pathParams)
     = map_of (rev pathParams) ++ map_of (rev queryArgs)
         ++ map_of (rev (map (\<lambda>(k, v). (''header:'' @ ToLower k, v)) headers))"
proof -
  define p1 where "p1 = fold (\<lambda>(k, v). AList.update k v) pathParams []"
  define p2 where "p2 = fold (\<lambda>(key, value). AList.update key value) queryArgs p1"
  define p3 where "p3 = fold (\<lambda>(key, value). AList.update (''header:'' @ ToLower key) value) headers p2"
  have "parseRequestParams queryArgs headers pathParams = p3"
    by (simp only: parseRequestParams_def Let_def p1_def p2_def p3_def)
  moreover have "map_of p1 = map_of (rev pathParams)"
    by (simp add: p1_def map_of_fold_update)
  moreover have "map_of p2 = map_of p1 ++ map_of (rev queryArgs)"
    unfolding p2_def by (rule map_of_fold_update)
  moreover have "map_of p3
      = map_of p2 ++ map_of (rev (map (\<lambda>(k, v). (''header:'' @ ToLower k, v)) headers))"
    unfolding p3_def by (rule map_of_fold_update_key)
  ultimately show ?thesis
    by (simp only:)
qed

lemma map_of_rev_distinct:
  "distinct (map fst xs) \<Longrightarrow> map_of (rev xs) = map_of xs"
proof -
  assume d: "distinct (map fst xs)"
  then have "distinct (map fst (rev xs))"
    by (metis distinct_rev rev_map)
  moreover have "set (rev xs) = set xs"
    by simp
  ultimately show ?thesis
    using d by (metis map_of_inject_set)
qed

lemma map_of_header_keys:
  "\<not> prefix ''header:'' k \<Longrightarrow> map_of (rev (map (\<lambda>(k, v). (''header:'' @ f k, v)) headers)) k = None"
proof -
  assume np: "\<not> prefix ''header:'' k"
  have "k \<notin> fst ` set (rev (map (\<lambda>(k, v). (''header:'' @ f k, v)) headers))"
  proof
    assume "k \<in> fst ` set (rev (map (\<lambda>(k, v). (''header:'' @ f k, v)) headers))"
    then obtain hk where "k = ''header:'' @ f hk"
      by auto
    then have "prefix ''header:'' k"
      by (simp only: prefixI)
    with np show False by simp
  qed
  then show ?thesis
    by (rule map_of_eq_None_iff [THEN iffD2])
qed

text \<open>
  C5. The parameter mapping starts with the path parameters, then takes every query
  parameter, a later one replacing an earlier entry of the same name, then takes every
  header value under the key \<open>header:\<close> followed by the lower-cased header name, again
  replacing an earlier entry of that key. So a header never changes the entry of a name
  that does not begin with \<open>header:\<close>.
\<close>

theorem parseRequestParams_merge:
  "map_of (parseRequestParams queryArgs headers pathParams)
     = map_of (rev pathParams) ++ map_of (rev queryArgs)
         ++ map_of (rev (map (\<lambda>(k, v). (''header:'' @ ToLower k, v)) headers))
   \<and> distinct (map fst (parseRequestParams queryArgs headers pathParams))
   \<and> (distinct (map fst pathParams) \<longrightarrow> map_of (rev pathParams) = map_of pathParams)
   \<and> (\<not> prefix ''header:'' name \<longrightarrow>
        map_of (parseRequestParams queryArgs headers pathParams) name
          = (map_of (rev pathParams) ++ map_of (rev queryArgs)) name)"
proof (intro conjI impI)
  show "map_of (parseRequestParams queryArgs headers pathParams)
     = map_of (rev pathParams) ++ map_of (rev queryArgs)
         ++ map_of (rev (map (\<lambda>(k, v). (''header:'' @ ToLower k, v)) headers))"
    by (rule map_of_parseRequestParams)
next
  have "distinct (map fst (fold (\<lambda>(k, v). AList.update ((\<lambda>k. k) k) v) pathParams []))"
    by (rule distinct_fold_update) simp
  then have "distinct (map fst (fold (\<lambda>(k, v). AList.update ((\<lambda>k. k) k) v) queryArgs
      (fold (\<lambda>(k, v). AList.update ((\<lambda>k. k) k) v) pathParams [])))"
    by (rule distinct_fold_update)
  then have "distinct (map fst (fold (\<lambda>(k, v). AList.update ((\<lambda>k. ''header:'' @ ToLower k) k) v) headers
      (fold (\<lambda>(k, v). AList.update ((\<lambda>k. k) k) v) queryArgs
      (fold (\<lambda>(k, v). AList.update ((\<lambda>k. k) k) v) pathParams []))))"
    by (rule distinct_fold_update)
  then show "distinct (map fst (parseRequestParams queryArgs headers pathParams))"
    by (simp add: parseRequestParams_def)
next
  assume "distinct (map fst pathParams)"
  then show "map_of (rev pathParams) = map_of pathParams"
    by (rule map_of_rev_distinct)
next
  assume "\<not> prefix ''header:'' name"
  then have "map_of (rev (map (\<lambda>(k, v). (''header:'' @ ToLower k, v)) headers)) name = None"
    by (rule map_of_header_keys)
  then show "map_of (parseRequestParams queryArgs headers pathParams) name
          = (map_of (rev pathParams) ++ map_of (rev queryArgs)) name"
    by (simp add: map_of_parseRequestParams map_add_def)
qed

theorem parseRequestParams_merge_witness:
  "parseRequestParams [(''id'', ''9''), (''page'', ''2'')] [(''X-Trace'', ''t1'')] [(''id'', ''7'')]
     = [(''id'', ''9''), (''page'', ''2''), (''header:x-trace'', ''t1'')]
   \<and> map_of (parseRequestParams [(''id'', ''9''), (''page'', ''2'')] [(''X-Trace'', ''t1'')] [(''id'', ''7'')]) ''id''
       = Some ''9''
   \<and> map_of (rev [(''id'', ''7'')]) = map_of [(''id'', ''7'')]"
proof -
  have d: "distinct (map fst [(''id'', ''7'')])" by simp
  have p: "\<not> prefix ''header:'' ''id''" by simp
  have e: "parseRequestParams [(''id'', ''9''), (''page'', ''2'')] [(''X-Trace'', ''t1'')] [(''id'', ''7'')]
     = [(''id'', ''9''), (''page'', ''2''), (''header:x-trace'', ''t1'')]"
    by code_simp
  show ?thesis
    using parseRequestParams_merge [of "[(''id'', ''9''), (''page'', ''2'')]" "[(''X-Trace'', ''t1'')]"
        "[(''id'', ''7'')]" "''id''"] d p e
    by (simp add: map_add_def)
qed

theorem parseRequestParams_collision:
  "(''header:x-trace'', ''from-query'') \<in> set [(''header:x-trace'', ''from-query'')]
   \<and> ''header:'' @ ToLower ''X-Trace'' = ''header:x-trace''
   \<and> parseRequestParams [(''header:x-trace'', ''from-query'')] [] [] = [(''header:x-trace'', ''from-query'')]
   \<and> parseRequestParams [(''header:x-trace'', ''from-query'')] [(''X-Trace'', ''from-header'')] []
       = [(''header:x-trace'', ''from-header'')]"
  by code_simp

lemma dot_routes_eq: "dot_routes = [(''/a.cGET'', dot_route)]"
  by code_simp

lemma collision_routes_eq: "collision_routes = [(''/xYGET'', collision_route)]"
  by code_simp




text \<open>
  C8 at the registry that holds only \<^verbatim>\<open>GET /a.c\<close>: the request \<^verbatim>\<open>GET /abc\<close> finds no
  route, and the answer is 404 with a hint to try the method GET, the method of the
  request itself.
\<close>

theorem requestHandler_hint_same_method:
  "requestHandler dot_routes False json_branch (get_request ''/abc'')
     = Reply 404 (Some ''application/json'')
         (EncodedError \<lparr> Error = ''Route not found for GET /abc - Try using method GET'',
                          StatusCode = 404,
                          ErrDescription = Fixed ''The requested endpoint does not exist'' \<rparr>)"
proof -
  have "findMatchingRoute dot_routes ''/abc'' ''GET'' = (RouteInfo_zero, [], False)"
    by code_simp
  moreover have "notFound dot_routes ''/abc'' ''GET''
     = Reply 404 (Some ''application/json'')
         (EncodedError \<lparr> Error = ''Route not found for GET /abc - Try using method GET'',
                          StatusCode = 404,
                          ErrDescription = Fixed ''The requested endpoint does not exist'' \<rparr>)"
    by code_simp
  ultimately show ?thesis
    by (simp add: requestHandler_def get_request_def)
qed

lemma json_Unmarshal_map_iff:
  "json_Unmarshal_map t \<noteq> Unmarshal_error \<longleftrightarrow>
     json_Valid t
     \<and> (case dropWhile isSpace t of
          [] \<Rightarrow> False
        | c # _ \<Rightarrow> c = CHR ''n''
                  \<or> (c = CHR ''{'' \<and> \<not> list_ex float64_overflow (the (checkValid t))))"
proof (cases "checkValid t")
  case None
  then show ?thesis
    by (simp add: json_Unmarshal_map_def json_Valid_def)
next
  case (Some nums)
  show ?thesis
  proof (cases "dropWhile isSpace t")
    case Nil
    show ?thesis
      unfolding json_Unmarshal_map_def json_Valid_def Some Nil by simp
  next
    case (Cons c cs)
    show ?thesis
      unfolding json_Unmarshal_map_def json_Valid_def Some Cons by simp
  qed
qed

text \<open>
  The dispatcher on a request that finds a route and carries no undecodable JSON body: the
  final text is the processed template. If \<^verbatim>\<open>json.Unmarshal\<close> decodes the final text
  into a string-keyed map, the text is the body as it is, with content type
  \<^verbatim>\<open>application/json\<close>; otherwise the body is the envelope whose message is the text
  and whose data field is optional. The text is decoded exactly when it is valid JSON and
  its top-level value is the literal null or an object whose numbers all fit a float64.
\<close>

theorem requestHandler_verbatim_or_envelope:
  "(ReqPath ctx \<noteq> ''/openapi.json'' \<and> \<not> prefix ''/swagger'' (ReqPath ctx)
    \<and> findMatchingRoute routes (ReqPath ctx) (ReqMethod ctx) = (route, pathParams, True)
    \<and> \<not> (ReqBody ctx \<noteq> [] \<and> Contains (ContentType ctx) ''application/json''
           \<and> json_Unmarshal_map (ReqBody ctx) = Unmarshal_error)
    \<longrightarrow> requestHandler routes includeDebugData json_branch ctx =
          (let text = processMessageTemplate json_branch (Message route) pathParams;
               params = parseRequestParams (QueryArgs ctx) (Headers ctx) pathParams;
               requestBody = (if ReqBody ctx \<noteq> [] \<and> Contains (ContentType ctx) ''application/json''
                                 \<and> json_Unmarshal_map (ReqBody ctx) = Decoded_object
                              then Some (ReqBody ctx) else None)
           in if json_Unmarshal_map text \<noteq> Unmarshal_error
              then Reply 200 (Some ''application/json'') (BodyString text)
              else Reply 200 (Some ''application/json'')
                     (EncodedApi \<lparr> ApiMessage = text,
                        Data = (if includeDebugData then
                                  (if params = [] \<and> requestBody = None then NoData
                                   else DebugData (if params = [] then None else Some params) requestBody)
                                else if pathParams = [] then NoData else PathParams pathParams) \<rparr>)))
   \<and> (json_Unmarshal_map t \<noteq> Unmarshal_error \<longleftrightarrow>
        json_Valid t
        \<and> (case dropWhile isSpace t of
             [] \<Rightarrow> False
           | c # _ \<Rightarrow> c = CHR ''n''
                     \<or> (c = CHR ''{'' \<and> \<not> list_ex float64_overflow (the (checkValid t)))))"
proof (intro conjI impI)
  assume a: "ReqPath ctx \<noteq> ''/openapi.json'' \<and> \<not> prefix ''/swagger'' (ReqPath ctx)
    \<and> findMatchingRoute routes (ReqPath ctx) (ReqMethod ctx) = (route, pathParams, True)
    \<and> \<not> (ReqBody ctx \<noteq> [] \<and> Contains (ContentType ctx) ''application/json''
           \<and> json_Unmarshal_map (ReqBody ctx) = Unmarshal_error)"
  then have p1: "ReqPath ctx \<noteq> ''/openapi.json''" and p2: "\<not> prefix ''/swagger'' (ReqPath ctx)"
    and f: "findMatchingRoute routes (ReqPath ctx) (ReqMethod ctx) = (route, pathParams, True)"
    and b: "\<not> (ReqBody ctx \<noteq> [] \<and> Contains (ContentType ctx) ''application/json''
           \<and> json_Unmarshal_map (ReqBody ctx) = Unmarshal_error)"
    by simp_all
  show "requestHandler routes includeDebugData json_branch ctx =
          (let text = processMessageTemplate json_branch (Message route) pathParams;
               params = parseRequestParams (QueryArgs ctx) (Headers ctx) pathParams;
               requestBody = (if ReqBody ctx \<noteq> [] \<and> Contains (ContentType ctx) ''application/json''
                                 \<and> json_Unmarshal_map (ReqBody ctx) = Decoded_object
                              then Some (ReqBody ctx) else None)
           in if json_Unmarshal_map text \<noteq> Unmarshal_error
              then Reply 200 (Some ''application/json'') (BodyString text)
              else Reply 200 (Some ''application/json'')
                     (EncodedApi \<lparr> ApiMessage = text,
                        Data = (if includeDebugData then
                                  (if params = [] \<and> requestBody = None then NoData
                                   else DebugData (if params = [] then None else Some params) requestBody)
                                else if pathParams = [] then NoData else PathParams pathParams) \<rparr>))"
    using p1 p2 b by (auto simp: requestHandler_def f Let_def)
next
  show "json_Unmarshal_map t \<noteq> Unmarshal_error \<longleftrightarrow>
        json_Valid t
        \<and> (case dropWhile isSpace t of
             [] \<Rightarrow> False
           | c # _ \<Rightarrow> c = CHR ''n''
                     \<or> (c = CHR ''{'' \<and> \<not> list_ex float64_overflow (the (checkValid t))))"
    by (rule json_Unmarshal_map_iff)
qed

lemma list_routes_find:
  "findMatchingRoute list_routes ''/ok'' ''GET'' = (ok_route, [], True)"
  by code_simp

theorem requestHandler_verbatim_or_envelope_witness:
  "requestHandler users_routes False (\<lambda>m p. Some m) (get_request ''/users/7'')
     = Reply 200 (Some ''application/json'')
         (EncodedApi \<lparr> ApiMessage = ''user 7'', Data = PathParams [(''id'', ''7'')] \<rparr>)
   \<and> requestHandler list_routes False (\<lambda>m p. Some m) (get_request ''/ok'')
     = Reply 200 (Some ''application/json'') (BodyString ''{\"ok\":true}'')"
proof -
  have f1: "findMatchingRoute users_routes ''/users/7'' ''GET'' = (users_id_route, [(''id'', ''7'')], True)"
    by code_simp
  have t1: "processMessageTemplate (\<lambda>m p. Some m) (Message users_id_route) [(''id'', ''7'')] = ''user 7''"
    by code_simp
  have u1: "json_Unmarshal_map ''user 7'' = Unmarshal_error"
    by code_simp
  have t2: "processMessageTemplate (\<lambda>m p. Some m) (Message ok_route) [] = ''{\"ok\":true}''"
    by code_simp
  have u2: "json_Unmarshal_map ''{\"ok\":true}'' = Decoded_object"
    by code_simp
  note hit = requestHandler_verbatim_or_envelope [THEN conjunct1, rule_format]
  have "requestHandler users_routes False (\<lambda>m p. Some m) (get_request ''/users/7'')
     = Reply 200 (Some ''application/json'')
         (EncodedApi \<lparr> ApiMessage = ''user 7'', Data = PathParams [(''id'', ''7'')] \<rparr>)"
    by (subst hit [where route = users_id_route and pathParams = "[(''id'', ''7'')]"])
      (simp_all add: get_request_def f1 t1 u1)
  moreover have "requestHandler list_routes False (\<lambda>m p. Some m) (get_request ''/ok'')
     = Reply 200 (Some ''application/json'') (BodyString ''{\"ok\":true}'')"
    by (subst hit [where route = ok_route and pathParams = "[]"])
      (simp_all add: get_request_def list_routes_find t2 u2)
  ultimately show ?thesis by simp
qed

text \<open>
  C4 at the registry that holds \<^verbatim>\<open>GET /list\<close> with the template \<^verbatim>\<open>[1]\<close>: the template
  has no placeholder and is valid JSON, and the request \<^verbatim>\<open>GET /list\<close> is answered with
  the envelope whose message is the text \<^verbatim>\<open>[1]\<close>, not with the text itself, whatever
  the JSON-object branch of the template processing does.
\<close>

theorem requestHandler_wraps_json_array:
  "json_Valid ''[1]''
   \<and> findMatchingRoute list_routes ''/list'' ''GET'' = (list_route, [], True)
   \<and> Message list_route = ''[1]''
   \<and> processMessageTemplate json_branch ''[1]'' [] = ''[1]''
   \<and> requestHandler list_routes False json_branch (get_request ''/list'')
       = Reply 200 (Some ''application/json'') (EncodedApi \<lparr> ApiMessage = ''[1]'', Data = NoData \<rparr>)"
proof -
  have v: "json_Valid ''[1]''"
    by code_simp
  have f: "findMatchingRoute list_routes ''/list'' ''GET'' = (list_route, [], True)"
    by code_simp
  have m: "Message list_route = ''[1]''"
    by (simp add: list_route_def)
  have u: "json_Unmarshal_map ''[1]'' = Unmarshal_error"
    by code_simp
  have t: "processMessageTemplate json_branch ''[1]'' [] = ''[1]''"
    by (simp add: processMessageTemplate_def u)
  have "requestHandler list_routes False json_branch (get_request ''/list'')
       = Reply 200 (Some ''application/json'') (EncodedApi \<lparr> ApiMessage = ''[1]'', Data = NoData \<rparr>)"
    by (simp add: requestHandler_def get_request_def f m t u Let_def)
  with v f m t show ?thesis
    by simp
qed

lemma literal_char_simps:
  "literal_char c \<Longrightarrow> c \<noteq> CHR ''{'' \<and> c \<noteq> CHR ''}'' \<and> c \<noteq> CHR ''(''"
  by (auto simp: literal_char_def)

lemma scan_literal:
  "list_all literal_char l \<Longrightarrow> paramPattern_scan (l @ rest) = map Text l @ paramPattern_scan rest"
  by (induction l) (auto dest: literal_char_simps)

lemma concat_runes: "concat (runes s) = s"
  by (induction s rule: runes.induct) simp_all

lemma rune_width_cases:
  "rune_width (c # cs) = 1
   \<or> (\<exists>c1 r. cs = c1 # r \<and> rune_width (c # cs) = 2 \<and> 194 \<le> (of_char c :: nat) \<and> cont_byte c1)
   \<or> (\<exists>c1 c2 r. cs = c1 # c2 # r \<and> rune_width (c # cs) = 3 \<and> 224 \<le> (of_char c :: nat)
         \<and> second_ok (of_char c) c1 \<and> cont_byte c2)
   \<or> (\<exists>c1 c2 c3 r. cs = c1 # c2 # c3 # r \<and> rune_width (c # cs) = 4 \<and> 240 \<le> (of_char c :: nat)
         \<and> second_ok (of_char c) c1 \<and> cont_byte c2 \<and> cont_byte c3)"
proof (cases cs)
  case Nil
  then show ?thesis by (simp add: Let_def)
next
  case c1: (Cons c1 r1)
  show ?thesis
  proof (cases r1)
    case Nil
    then show ?thesis using c1 by (simp add: Let_def)
  next
    case c2: (Cons c2 r2)
    show ?thesis
    proof (cases r2)
      case Nil
      then show ?thesis using c1 c2 by (simp add: Let_def)
    next
      case c3: (Cons c3 r3)
      then show ?thesis using c1 c2 by (simp add: Let_def)
    qed
  qed
qed

lemma rune_width_pos: "0 < rune_width (c # cs)"
  using rune_width_cases [of c cs] by auto

lemma rune_width_le: "rune_width (c # cs) - 1 \<le> length cs"
  using rune_width_cases [of c cs]
  by (elim disjE exE conjE) (simp_all del: rune_width.simps)

lemma rune_width_append:
  assumes "1 < rune_width (c # cs)"
  shows "rune_width (c # cs @ rest) = rune_width (c # cs)"
proof (cases cs)
  case Nil
  then show ?thesis using assms by (simp add: Let_def split: if_splits)
next
  case c1: (Cons c1 r1)
  show ?thesis
  proof (cases r1)
    case Nil
    then show ?thesis using c1 assms by (simp add: Let_def split: if_splits)
  next
    case c2: (Cons c2 r2)
    show ?thesis
    proof (cases r2)
      case Nil
      then show ?thesis using c1 c2 assms by (simp add: Let_def split: if_splits)
    next
      case c3: (Cons c3 r3)
      then show ?thesis using c1 c2 assms by (simp add: Let_def split: if_splits)
    qed
  qed
qed

lemma ascii_width: "is_ascii c \<Longrightarrow> rune_width (c # cs) = 1"
  by (simp add: is_ascii_def Let_def)

lemma valid_utf8_Cons:
  "valid_utf8 (c # cs) \<longleftrightarrow>
     \<not> ill_formed (c # take (rune_width (c # cs) - 1) cs)
     \<and> valid_utf8 (drop (rune_width (c # cs) - 1) cs)"
  by (simp add: valid_utf8_def del: rune_width.simps)

lemma rune_width_valid_append:
  assumes "\<not> ill_formed (c # take (rune_width (c # cs) - 1) cs)"
  shows "rune_width (c # cs @ rest) = rune_width (c # cs)"
proof (cases "1 < rune_width (c # cs)")
  case True
  then show ?thesis by (rule rune_width_append)
next
  case False
  then have w: "rune_width (c # cs) = 1"
    using rune_width_pos [of c cs] by simp
  with assms have "is_ascii c"
    by (simp add: ill_formed_def)
  then show ?thesis
    using w by (simp add: ascii_width del: rune_width.simps)
qed

lemma runes_append:
  "valid_utf8 a \<Longrightarrow> runes (a @ b) = runes a @ runes b"
proof (induction a rule: runes.induct)
  case 1
  then show ?case by simp
next
  case (2 c cs)
  let ?w = "rune_width (c # cs)"
  note "2.prems" [unfolded valid_utf8_Cons]
  then have nill: "\<not> ill_formed (c # take (?w - 1) cs)"
    and v: "valid_utf8 (drop (?w - 1) cs)"
    by blast+
  have w: "rune_width (c # cs @ b) = ?w"
    using nill by (rule rune_width_valid_append)
  have le: "?w - 1 \<le> length cs"
    by (rule rune_width_le)
  have "runes ((c # cs) @ b) = (c # take (?w - 1) (cs @ b)) # runes (drop (?w - 1) (cs @ b))"
    using w by (simp del: rune_width.simps)
  also have "\<dots> = (c # take (?w - 1) cs) # runes (drop (?w - 1) cs @ b)"
    using le by simp
  also have "\<dots> = (c # take (?w - 1) cs) # (runes (drop (?w - 1) cs) @ runes b)"
    using "2.IH" [OF v] by simp
  finally show ?case
    by (simp del: rune_width.simps)
qed

lemma valid_utf8_append:
  "valid_utf8 a \<Longrightarrow> valid_utf8 b \<Longrightarrow> valid_utf8 (a @ b)"
  by (simp add: valid_utf8_def runes_append)

lemma scan_placeholder:
  assumes "name \<noteq> []" and "list_all not_brace name"
  shows "paramPattern_scan (''{'' @ name @ ''}'' @ rest) = Placeholder name # paramPattern_scan rest"
proof -
  have nb: "\<not> not_brace CHR ''}''"
    by (simp add: not_brace_def)
  have all: "\<forall>x \<in> set name. not_brace x"
    using assms(2) by (simp add: list_all_iff)
  have t: "takeWhile not_brace (name @ CHR ''}'' # rest) = name"
    using all nb by (simp add: takeWhile_append2)
  have d: "dropWhile not_brace (name @ CHR ''}'' # rest) = CHR ''}'' # rest"
    using all nb by (simp add: dropWhile_append2)
  show ?thesis
    using assms(1) t d by simp
qed

lemma scan_pattern_of:
  "list_all plain_seg segs \<Longrightarrow> paramPattern_scan (pattern_of segs) = pieces_of segs"
proof (induction segs rule: pattern_of.induct)
  case 1
  then show ?case by simp
next
  case (2 l segs)
  then show ?case by (simp add: scan_literal)
next
  case (3 name segs)
  then have "paramPattern_scan (''{'' @ name @ ''}'' @ pattern_of segs)
      = Placeholder name # paramPattern_scan (pattern_of segs)"
    by (intro scan_placeholder) simp_all
  with 3 show ?case by simp
qed

lemma wf_seg_plain: "wf_seg s \<Longrightarrow> plain_seg s"
  by (cases s) simp_all

lemma wf_segs_plain: "list_all wf_seg segs \<Longrightarrow> list_all plain_seg segs"
  by (induction segs) (simp_all add: wf_seg_plain)

lemma FindAll_names_append:
  "FindAll_names (map Text l @ ps) = FindAll_names ps"
  by (induction l) simp_all

lemma ReplaceAll_group_append:
  "ReplaceAll_group (map Text l @ ps) = l @ ReplaceAll_group ps"
  by (induction l) simp_all

lemma FindAll_names_pieces: "FindAll_names (pieces_of segs) = param_names segs"
  by (induction segs rule: pattern_of.induct) (simp_all add: FindAll_names_append)

lemma ReplaceAll_group_pieces: "ReplaceAll_group (pieces_of segs) = group_text segs"
  by (induction segs rule: pattern_of.induct) (simp_all add: ReplaceAll_group_append)

lemma pathToRegex_plain:
  "list_all plain_seg segs \<Longrightarrow>
     pathToRegex (pattern_of segs)
       = (regexp_Compile (''^'' @ group_text segs @ ''$''), param_names segs)"
  by (simp only: pathToRegex_def Let_def scan_pattern_of FindAll_names_pieces
      ReplaceAll_group_pieces)

lemma lit_inst_ascii:
  "lit_inst [c] = (if c = CHR ''.'' then AnyNotNL else Lit c)"
  by (simp add: lit_inst_def)

lemma lit_inst_wide:
  "c \<noteq> CHR ''.'' \<Longrightarrow> r \<noteq> [] \<Longrightarrow> lit_inst (c # r) = LitRune (c # r)"
  by (cases r) (simp_all add: lit_inst_def)

lemma parse_ascii:
  assumes "literal_char c" and "is_ascii c"
  shows "parse_body (c # rest) = map_option ((#) (lit_inst [c])) (parse_body rest)"
proof (cases "c = CHR ''.''")
  case True
  then show ?thesis
    by (simp add: lit_inst_ascii prefix_def)
next
  case False
  have "plain_char c"
    using assms False by (auto simp: plain_char_def literal_char_def)
  moreover have "c \<noteq> CHR ''{'' \<and> c \<noteq> CHR ''}'' \<and> c \<noteq> CHR ''(''"
    using assms(1) by (rule literal_char_simps)
  ultimately show ?thesis
    using False by (simp add: lit_inst_ascii prefix_def)
qed

lemma not_ascii_simps:
  "\<not> is_ascii c \<Longrightarrow>
     c \<noteq> CHR ''{'' \<and> c \<noteq> CHR ''}'' \<and> c \<noteq> CHR ''('' \<and> c \<noteq> CHR ''.'' \<and> \<not> plain_char c"
  by (auto simp: is_ascii_def plain_char_def)

lemma parse_wide:
  assumes "\<not> is_ascii c" and "1 < rune_width (c # cs)"
  shows "parse_body (c # cs @ rest)
     = map_option ((#) (lit_inst (c # take (rune_width (c # cs) - 1) cs)))
         (parse_body (drop (rune_width (c # cs) - 1) cs @ rest))"
proof -
  let ?w = "rune_width (c # cs)"
  have w: "rune_width (c # cs @ rest) = ?w"
    using assms(2) by (rule rune_width_append)
  have le: "?w - 1 \<le> length cs"
    by (rule rune_width_le)
  have ne: "take (?w - 1) cs \<noteq> []"
    using assms(2) rune_width_cases [of c cs]
    by (elim disjE exE conjE) (simp_all del: rune_width.simps)
  have c: "c \<noteq> CHR ''{'' \<and> c \<noteq> CHR ''}'' \<and> c \<noteq> CHR ''('' \<and> c \<noteq> CHR ''.'' \<and> \<not> plain_char c"
    using assms(1) by (rule not_ascii_simps)
  then have l: "lit_inst (c # take (?w - 1) cs) = LitRune (c # take (?w - 1) cs)"
    using ne by (simp add: lit_inst_wide)
  have "parse_body (c # cs @ rest)
      = map_option ((#) (LitRune (c # take (?w - 1) (cs @ rest))))
          (parse_body (drop (?w - 1) (cs @ rest)))"
    using c assms(2) w by (simp add: prefix_def del: rune_width.simps)
  then show ?thesis
    using le l by simp
qed

lemma parse_literal:
  "list_all literal_char l \<Longrightarrow> valid_utf8 l \<Longrightarrow>
     parse_body (l @ rest) = map_option ((@) (map lit_inst (runes l))) (parse_body rest)"
proof (induction l rule: runes.induct)
  case 1
  then show ?case by (simp add: option.map_ident)
next
  case (2 c cs)
  let ?w = "rune_width (c # cs)"
  note "2.prems"(2) [unfolded valid_utf8_Cons]
  then have nill: "\<not> ill_formed (c # take (?w - 1) cs)"
    and v: "valid_utf8 (drop (?w - 1) cs)"
    by blast+
  have lc: "literal_char c"
    using "2.prems"(1) by simp
  have lcs: "list_all literal_char (drop (?w - 1) cs)"
    using "2.prems"(1) by (auto simp: list_all_iff dest: in_set_dropD)
  have IH: "parse_body (drop (?w - 1) cs @ rest)
      = map_option ((@) (map lit_inst (runes (drop (?w - 1) cs)))) (parse_body rest)"
    using lcs v by (rule "2.IH")
  have step: "parse_body ((c # cs) @ rest)
      = map_option ((#) (lit_inst (c # take (?w - 1) cs))) (parse_body (drop (?w - 1) cs @ rest))"
  proof (cases "is_ascii c")
    case True
    then have "?w = 1"
      by (rule ascii_width)
    then show ?thesis
      using parse_ascii [OF lc True, of "cs @ rest"] by (simp del: rune_width.simps)
  next
    case False
    have "1 < ?w"
    proof (rule ccontr)
      assume "\<not> 1 < ?w"
      then have "?w = 1"
        using rune_width_pos [of c cs] by simp
      with nill False show False
        by (simp add: ill_formed_def)
    qed
    with False show ?thesis
      using parse_wide [of c cs rest] by simp
  qed
  show ?case
    unfolding step IH
    by (simp add: option.map_comp comp_def del: rune_width.simps)
qed

lemma parse_group:
  "parse_body (''([^/]+)'' @ rest) = map_option ((#) Capture) (parse_body rest)"
  by (simp add: prefix_def)

lemma parse_group_text:
  "list_all wf_seg segs \<Longrightarrow> parse_body (group_text segs) = Some (prog_of segs)"
proof (induction segs rule: pattern_of.induct)
  case 1
  then show ?case by simp
next
  case (2 l segs)
  then show ?case by (simp add: parse_literal)
next
  case (3 name segs)
  then have "parse_body (group_text segs) = Some (prog_of segs)" by simp
  then show ?case
    by (simp only: group_text.simps parse_group prog_of.simps option.map)
qed

lemma valid_utf8_group: "valid_utf8 ''([^/]+)''"
  by code_simp

lemma valid_group_text:
  "list_all wf_seg segs \<Longrightarrow> valid_utf8 (group_text segs)"
proof (induction segs rule: pattern_of.induct)
  case 1
  then show ?case by (simp add: valid_utf8_def)
next
  case (2 l segs)
  then show ?case by (simp add: valid_utf8_append)
next
  case (3 name segs)
  then have "valid_utf8 (group_text segs)" by simp
  with valid_utf8_group have "valid_utf8 (''([^/]+)'' @ group_text segs)"
    by (rule valid_utf8_append)
  then show ?case by simp
qed

lemma regexp_Compile_anchored:
  assumes "valid_utf8 body" and "parse_body body = Some prog"
  shows "regexp_Compile (''^'' @ body @ ''$'') = Some (Prog prog)"
proof -
  have a: "valid_utf8 ''^''" and b: "valid_utf8 ''$''"
    by code_simp+
  have "valid_utf8 (''^'' @ body @ ''$'')"
    using a assms(1) b by (intro valid_utf8_append)
  then show ?thesis
    using assms(2) by (simp add: regexp_Compile_def butlast_append)
qed

lemma pathToRegex_pattern_of:
  assumes "list_all wf_seg segs"
  shows "pathToRegex (pattern_of segs) = (Some (Prog (prog_of segs)), param_names segs)"
proof -
  have "regexp_Compile (''^'' @ group_text segs @ ''$'') = Some (Prog (prog_of segs))"
    using assms by (intro regexp_Compile_anchored valid_group_text parse_group_text)
  then show ?thesis
    using pathToRegex_plain [OF wf_segs_plain [OF assms]] by simp
qed

lemma second_ok_high: "second_ok b c \<Longrightarrow> 128 \<le> (of_char c :: nat)"
  by (simp add: second_ok_def split: if_splits)

lemma rune_width_wide:
  "1 < rune_width (c # cs) \<Longrightarrow>
     128 \<le> (of_char c :: nat) \<and> (\<forall>x \<in> set (take (rune_width (c # cs) - 1) cs). 128 \<le> (of_char x :: nat))"
  using rune_width_cases [of c cs]
  by (elim disjE exE conjE) (simp_all add: cont_byte_def second_ok_high del: rune_width.simps)

lemma sound_rune_head:
  "sound_rune (c # take (rune_width (c # cs) - 1) cs)"
proof (cases "1 < rune_width (c # cs)")
  case True
  then have "128 \<le> (of_char c :: nat)
      \<and> (\<forall>x \<in> set (take (rune_width (c # cs) - 1) cs). 128 \<le> (of_char x :: nat))"
    by (rule rune_width_wide)
  then have all: "\<forall>x \<in> set (c # take (rune_width (c # cs) - 1) cs). 128 \<le> (of_char x :: nat)"
    by simp
  have "CHR ''/'' \<notin> set (c # take (rune_width (c # cs) - 1) cs)"
  proof
    assume "CHR ''/'' \<in> set (c # take (rune_width (c # cs) - 1) cs)"
    with all have "128 \<le> (of_char CHR ''/'' :: nat)"
      by blast
    then show False by simp
  qed
  then show ?thesis
    by (simp add: sound_rune_def)
next
  case False
  then have "rune_width (c # cs) = 1"
    using rune_width_pos [of c cs] by simp
  then show ?thesis
    by (simp add: sound_rune_def)
qed

lemma sound_runes: "list_all sound_rune (runes s)"
proof (induction s rule: runes.induct)
  case 1
  then show ?case by simp
next
  case (2 c cs)
  then show ?case
    using sound_rune_head [of c cs] by (simp del: rune_width.simps)
qed

lemma agrees_slash: "agrees [CHR ''/''] r \<longleftrightarrow> r = [CHR ''/'']"
  by (auto simp: agrees_def rune_value_def RuneError_def ill_formed_def is_ascii_def)

lemma rmatch_literal:
  "rmatch (map lit_inst ps @ prog) rs = Some caps \<Longrightarrow> \<forall>p \<in> set ps. p \<noteq> [] \<and> \<not> ill_formed p \<Longrightarrow>
     list_all2 agrees ps (take (length ps) rs) \<and> rmatch prog (drop (length ps) rs) = Some caps"
proof (induction ps arbitrary: rs)
  case Nil
  then show ?case by simp
next
  case (Cons p ps)
  have p: "p \<noteq> []" "\<not> ill_formed p"
    using Cons.prems(2) by simp_all
  have "\<exists>r rs1. rs = r # rs1 \<and> agrees p r \<and> rmatch (map lit_inst ps @ prog) rs1 = Some caps"
  proof (cases "p = ''.''")
    case True
    then have "lit_inst p = AnyNotNL"
      by (simp add: lit_inst_def)
    then show ?thesis
      using Cons.prems(1) True by (auto simp: agrees_def split: list.splits if_splits)
  next
    case False
    show ?thesis
    proof (cases "\<exists>c. p = [c]")
      case True
      then obtain c where c: "p = [c]" by blast
      then have "rune_value [c] = [c]"
        using p(2) by (simp add: rune_value_def)
      moreover have "lit_inst p = Lit c"
        using False c by (simp add: lit_inst_def)
      ultimately show ?thesis
        using Cons.prems(1) False c
        by (auto simp: agrees_def split: list.splits if_splits)
    next
      case single: False
      then obtain c r where "p = c # r" "r \<noteq> []"
        using p(1) by (cases p) auto
      then have "lit_inst p = LitRune p"
        using False by (cases r) (simp_all add: lit_inst_def)
      then show ?thesis
        using Cons.prems(1) False
        by (auto simp: agrees_def split: list.splits if_splits)
    qed
  qed
  then obtain r rs1 where rs: "rs = r # rs1" and a: "agrees p r"
    and m: "rmatch (map lit_inst ps @ prog) rs1 = Some caps"
    by blast
  have "list_all2 agrees ps (take (length ps) rs1) \<and> rmatch prog (drop (length ps) rs1) = Some caps"
    using m Cons.prems(2) by (intro Cons.IH) simp_all
  then show ?case
    using rs a by simp
qed

lemma capture_sound:
  assumes "list_all sound_rune rs" and "0 < m" and "m \<le> length (takeWhile (\<lambda>r. r \<noteq> [CHR ''/'']) rs)"
  shows "concat (take m rs) \<noteq> [] \<and> CHR ''/'' \<notin> set (concat (take m rs))"
proof -
  let ?tw = "takeWhile (\<lambda>r. r \<noteq> [CHR ''/'']) rs"
  have "take m rs = take m (?tw @ dropWhile (\<lambda>r. r \<noteq> [CHR ''/'']) rs)"
    by simp
  also have "\<dots> = take m ?tw"
    using assms(3) by (simp del: takeWhile_dropWhile_id)
  finally have tk: "take m rs = take m ?tw" .
  have each: "\<forall>r \<in> set (take m rs). sound_rune r \<and> r \<noteq> [CHR ''/'']"
  proof
    fix r assume "r \<in> set (take m rs)"
    then have "r \<in> set ?tw"
      using tk in_set_takeD [of r m ?tw] by simp
    then have "r \<in> set rs" and "r \<noteq> [CHR ''/'']"
      by (auto dest: set_takeWhileD)
    then show "sound_rune r \<and> r \<noteq> [CHR ''/'']"
      using assms(1) by (simp add: list_all_iff)
  qed
  have "take m rs \<noteq> []"
    using assms(2,3) by (cases rs) auto
  then obtain r rest where "take m rs = r # rest"
    by (cases "take m rs") auto
  then have "concat (take m rs) \<noteq> []"
    using each by (auto simp: sound_rune_def)
  moreover have "CHR ''/'' \<notin> set (concat (take m rs))"
    using each by (auto simp: sound_rune_def)
  ultimately show ?thesis by simp
qed

lemma fits_Param:
  "fits (Param name # segs) (c # caps) rs
     \<longleftrightarrow> (\<exists>m \<le> length rs. concat (take m rs) = c \<and> fits segs caps (drop m rs))"
proof -
  have "\<And>x. (x = length rs \<or> x < length rs) \<longleftrightarrow> x \<le> length rs"
    by auto
  then show ?thesis
    by (simp add: list_ex_iff Bex_def)
qed

lemma valid_runes:
  assumes "valid_utf8 l"
  shows "\<forall>p \<in> set (runes l). p \<noteq> [] \<and> \<not> ill_formed p"
proof
  fix p assume p: "p \<in> set (runes l)"
  then have "sound_rune p"
    using sound_runes [of l] by (simp add: list_all_iff)
  moreover have "\<not> ill_formed p"
    using assms p by (simp add: valid_utf8_def list_all_iff)
  ultimately show "p \<noteq> [] \<and> \<not> ill_formed p"
    by (simp add: sound_rune_def)
qed

lemma rmatch_fits:
  "list_all wf_seg segs \<Longrightarrow> list_all sound_rune rs \<Longrightarrow> rmatch (prog_of segs) rs = Some caps \<Longrightarrow>
     length caps = length (param_names segs)
     \<and> (\<forall>c \<in> set caps. c \<noteq> [] \<and> CHR ''/'' \<notin> set c)
     \<and> fits segs caps rs"
proof (induction segs arbitrary: rs caps rule: pattern_of.induct)
  case 1
  then show ?case by (simp split: if_splits)
next
  case (2 l segs)
  let ?n = "length (runes l)"
  have v: "\<forall>p \<in> set (runes l). p \<noteq> [] \<and> \<not> ill_formed p"
    using 2(2) by (intro valid_runes) simp
  from 2(4) have "rmatch (map lit_inst (runes l) @ prog_of segs) rs = Some caps"
    by simp
  then have lit: "list_all2 agrees (runes l) (take ?n rs)"
    and m: "rmatch (prog_of segs) (drop ?n rs) = Some caps"
    using rmatch_literal [OF _ v] by blast+
  have "list_all sound_rune (drop ?n rs)"
    using 2(3) by (auto simp: list_all_iff dest: in_set_dropD)
  with 2(1) [of "drop ?n rs" caps] 2(2) m
  have "length caps = length (param_names segs)
     \<and> (\<forall>c \<in> set caps. c \<noteq> [] \<and> CHR ''/'' \<notin> set c)
     \<and> fits segs caps (drop ?n rs)"
    by simp
  then show ?case
    using lit by simp
next
  case (3 name segs)
  from 3(4) have "try_lengths (rmatch (prog_of segs)) rs
      (length (takeWhile (\<lambda>r. r \<noteq> [CHR ''/'']) rs)) = Some caps"
    by simp
  then obtain m caps' where m: "0 < m" "m \<le> length (takeWhile (\<lambda>r. r \<noteq> [CHR ''/'']) rs)"
    and rest: "rmatch (prog_of segs) (drop m rs) = Some caps'"
    and caps: "caps = concat (take m rs) # caps'"
    using try_lengths_Some by blast
  have "list_all sound_rune (drop m rs)"
    using 3(3) by (auto simp: list_all_iff dest: in_set_dropD)
  with 3(1) [of "drop m rs" caps'] 3(2) rest
  have IH: "length caps' = length (param_names segs)
     \<and> (\<forall>c \<in> set caps'. c \<noteq> [] \<and> CHR ''/'' \<notin> set c)
     \<and> fits segs caps' (drop m rs)"
    by simp
  have cap: "concat (take m rs) \<noteq> [] \<and> CHR ''/'' \<notin> set (concat (take m rs))"
    using 3(3) m by (rule capture_sound)
  have "m \<le> length rs"
    using m(2) length_takeWhile_le [of "\<lambda>r. r \<noteq> [CHR ''/'']" rs] by simp
  then have "fits (Param name # segs) caps rs"
    unfolding caps fits_Param using IH by blast
  then show ?case
    using IH cap caps by simp
qed

lemma param_names_append: "param_names (pre @ post) = param_names pre @ param_names post"
  by (induction pre rule: param_names.induct) simp_all

lemma fits_append:
  "fits (pre @ post) caps rs \<Longrightarrow>
     \<exists>n \<le> length rs. fits pre (take (length (param_names pre)) caps) (take n rs)
        \<and> fits post (drop (length (param_names pre)) caps) (drop n rs)"
proof (induction pre arbitrary: caps rs rule: pattern_of.induct)
  case 1
  then show ?case
    by (intro exI [of _ 0]) simp
next
  case (2 l segs)
  let ?nl = "length (runes l)"
  let ?k = "length (param_names segs)"
  from 2(2) have lit: "list_all2 agrees (runes l) (take ?nl rs)"
    and rest: "fits (segs @ post) caps (drop ?nl rs)"
    by simp_all
  have nl: "?nl \<le> length rs"
    using list_all2_lengthD [OF lit] by simp
  from 2(1) [OF rest] obtain n where n: "n \<le> length (drop ?nl rs)"
    and a: "fits segs (take ?k caps) (take n (drop ?nl rs))"
    and b: "fits post (drop ?k caps) (drop n (drop ?nl rs))"
    by blast
  have t1: "take ?nl (take (?nl + n) rs) = take ?nl rs"
    by (simp add: min_def)
  have t2: "drop ?nl (take (?nl + n) rs) = take n (drop ?nl rs)"
    by (simp add: drop_take)
  have t3: "drop (?nl + n) rs = drop n (drop ?nl rs)"
    by (simp add: add.commute)
  have "?nl + n \<le> length rs"
    using n nl by simp
  moreover have "fits (Literal l # segs) (take ?k caps) (take (?nl + n) rs)"
    using lit a by (simp only: fits.simps t1 t2)
  moreover have "fits post (drop ?k caps) (drop (?nl + n) rs)"
    using b by (simp only: t3)
  ultimately show ?case
    by (intro exI [of _ "?nl + n"]) simp
next
  case (3 name segs)
  let ?k = "length (param_names segs)"
  from 3(2) obtain c caps' where caps: "caps = c # caps'"
    by (cases caps) simp_all
  with 3(2) obtain m where m: "m \<le> length rs" and c: "concat (take m rs) = c"
    and rest: "fits (segs @ post) caps' (drop m rs)"
    by (simp only: append_Cons fits_Param) blast
  from 3(1) [OF rest] obtain n where n: "n \<le> length (drop m rs)"
    and a: "fits segs (take ?k caps') (take n (drop m rs))"
    and b: "fits post (drop ?k caps') (drop n (drop m rs))"
    by blast
  have t1: "take m (take (m + n) rs) = take m rs"
    by (simp add: min_def)
  have t2: "drop m (take (m + n) rs) = take n (drop m rs)"
    by (simp add: drop_take)
  have t3: "drop (m + n) rs = drop n (drop m rs)"
    by (simp add: add.commute)
  have le: "m + n \<le> length rs"
    using n m by simp
  have "m \<le> length (take (m + n) rs)"
    using le by simp
  then have "fits (Param name # segs) (c # take ?k caps') (take (m + n) rs)"
    unfolding fits_Param using c a t1 t2 by metis
  moreover have "fits post (drop ?k caps') (drop (m + n) rs)"
    using b by (simp only: t3)
  ultimately show ?case
    using le caps by (intro exI [of _ "m + n"]) simp
qed

lemma last_concat:
  "xs \<noteq> [] \<Longrightarrow> last xs \<noteq> [] \<Longrightarrow> concat xs \<noteq> [] \<and> last (concat xs) = last (last xs)"
proof -
  assume ne: "xs \<noteq> []" and l: "last xs \<noteq> []"
  have "concat xs = concat (butlast xs @ [last xs])"
    using ne by simp
  then have "concat xs = concat (butlast xs) @ last xs"
    by simp
  then show ?thesis
    using l by simp
qed

lemma last_runes_slash:
  assumes "l \<noteq> []" and "last l = CHR ''/''"
  shows "runes l \<noteq> [] \<and> last (runes l) = [CHR ''/'']"
proof -
  have ne: "runes l \<noteq> []"
    using assms(1) by (cases l) simp_all
  then have "last (runes l) \<in> set (runes l)"
    by simp
  then have s: "sound_rune (last (runes l))"
    using sound_runes [of l] by (simp add: list_all_iff)
  then have "last (concat (runes l)) = last (last (runes l))"
    using ne last_concat [of "runes l"] by (simp add: sound_rune_def)
  then have "last (last (runes l)) = CHR ''/''"
    using assms(2) by (simp add: concat_runes)
  moreover have "last (last (runes l)) \<in> set (last (runes l))"
    using s by (simp add: sound_rune_def)
  ultimately show ?thesis
    using s ne by (simp add: sound_rune_def)
qed

lemma hd_runes_slash:
  assumes "l \<noteq> []" and "hd l = CHR ''/''"
  shows "\<exists>ps. runes l = [CHR ''/''] # ps"
  using assms by (cases l) (simp_all add: Let_def)

lemma fits_starts_slash:
  assumes "starts_slash post" and "fits post caps rs"
  shows "concat rs = [] \<or> hd (concat rs) = CHR ''/''"
proof (cases post)
  case Nil
  then show ?thesis using assms(2) by simp
next
  case (Cons s post')
  then obtain l where l: "s = Literal l" "l \<noteq> []" "hd l = CHR ''/''"
    using assms(1) by (auto simp: starts_slash_def split: seg.splits)
  then obtain ps where ps: "runes l = [CHR ''/''] # ps"
    using hd_runes_slash by blast
  have "list_all2 agrees (runes l) (take (length (runes l)) rs)"
    using assms(2) Cons l(1) by simp
  then obtain r rs1 where "rs = r # rs1" "agrees [CHR ''/''] r"
    unfolding ps by (cases rs) simp_all
  then show ?thesis
    by (simp add: agrees_slash)
qed

lemma fits_ends_slash:
  assumes "ends_slash pre" and "fits pre caps rs"
  shows "concat rs = [] \<or> last (concat rs) = CHR ''/''"
proof (cases "pre = []")
  case True
  then show ?thesis using assms(2) by simp
next
  case False
  then obtain l where l: "last pre = Literal l" "l \<noteq> []" "last l = CHR ''/''"
    using assms(1) by (auto simp: ends_slash_def split: seg.splits)
  have pre: "pre = butlast pre @ [Literal l]"
    using False l(1) by (metis append_butlast_last_id)
  let ?k = "length (param_names (butlast pre))"
  let ?nl = "length (runes l)"
  have "fits (butlast pre @ [Literal l]) caps rs"
    using assms(2) pre by simp
  then obtain n where n: "n \<le> length rs"
    and b: "fits [Literal l] (drop ?k caps) (drop n rs)"
    using fits_append [of "butlast pre" "[Literal l]" caps rs] by blast
  define B where "B = drop n rs"
  from b have lit: "list_all2 agrees (runes l) (take ?nl B)" and e: "drop ?nl B = []"
    by (simp_all add: B_def)
  have B: "take ?nl B = B"
    using e by simp
  have rl: "runes l \<noteq> []" "last (runes l) = [CHR ''/'']"
    using last_runes_slash [OF l(2,3)] by simp_all
  have len: "length (runes l) = length B"
    using list_all2_lengthD [OF lit] B by simp
  then have Bne: "B \<noteq> []"
    using rl(1) by auto
  have litB: "list_all2 agrees (runes l) B"
    using lit B by simp
  have "agrees (runes l ! (length B - 1)) (B ! (length B - 1))"
    using list_all2_nthD [OF litB, of "length B - 1"] len Bne by simp
  then have "agrees (last (runes l)) (last B)"
    using len rl(1) Bne by (simp add: last_conv_nth)
  then have lastB: "last B = [CHR ''/'']"
    using rl(2) by (simp add: agrees_slash)
  have "concat rs = concat (take n rs @ B)"
    by (simp add: B_def)
  then have "concat rs = concat (take n rs) @ concat B"
    by simp
  moreover have "concat B \<noteq> [] \<and> last (concat B) = last (last B)"
    using Bne lastB by (intro last_concat) simp_all
  ultimately show ?thesis
    using lastB by simp
qed

lemma components_nonempty: "components s \<noteq> []"
  by (induction s) (simp_all add: components_def)

lemma components_Cons:
  "components (c # s) =
     (if c = CHR ''/'' then [] # components s
      else (c # hd (components s)) # tl (components s))"
  by (simp add: components_def)

lemma components_Nil: "components [] = [[]]"
  by (simp add: components_def)

lemma components_slash:
  "components (a @ CHR ''/'' # rest) = components a @ components rest"
proof (induction a)
  case Nil
  then show ?case by (simp add: components_Cons components_Nil)
next
  case (Cons c a)
  then show ?case
    using components_nonempty [of a] by (cases "components a") (simp_all add: components_Cons)
qed

lemma components_plain:
  "CHR ''/'' \<notin> set cap \<Longrightarrow>
     components (cap @ rest) = (cap @ hd (components rest)) # tl (components rest)"
proof (induction cap)
  case Nil
  then show ?case using components_nonempty [of rest] by simp
next
  case (Cons c cap)
  then show ?case by (auto simp: components_Cons)
qed

lemma component_between:
  assumes "CHR ''/'' \<notin> set cap"
    and "a = [] \<or> last a = CHR ''/''"
    and "b = [] \<or> hd b = CHR ''/''"
  shows "cap \<in> set (components (a @ cap @ b))"
proof -
  have tail: "\<exists>rest. components (cap @ b) = cap # rest"
  proof (cases b)
    case Nil
    then show ?thesis
      using components_plain [OF assms(1), of "[]"] by (simp add: components_Nil)
  next
    case (Cons c b')
    then have "c = CHR ''/''" using assms(3) by simp
    then have "components (cap @ b) = components cap @ components b'"
      using Cons components_slash [of cap b'] by simp
    moreover have "components cap = [cap]"
      using components_plain [OF assms(1), of "[]"] by (simp add: components_Nil)
    ultimately show ?thesis by simp
  qed
  show ?thesis
  proof (cases "a = []")
    case True
    then show ?thesis using tail by auto
  next
    case False
    then have "a = butlast a @ [CHR ''/'']"
      using assms(2) by (metis append_butlast_last_id)
    then have "a @ cap @ b = butlast a @ CHR ''/'' # (cap @ b)"
      by (metis append.assoc append_Cons append_Nil)
    then have "components (a @ cap @ b) = components (butlast a) @ components (cap @ b)"
      by (simp only: components_slash)
    then show ?thesis using tail by auto
  qed
qed

lemma capture_whole_component:
  assumes wf: "list_all wf_seg (pre @ Param name # post)"
    and e: "ends_slash pre" and s: "starts_slash post"
    and m: "FindStringSubmatch (Prog (prog_of (pre @ Param name # post))) path = path # caps"
  shows "caps ! length (param_names pre) \<in> set (components path)"
proof -
  let ?segs = "pre @ Param name # post"
  let ?k = "length (param_names pre)"
  let ?rs = "runes path"
  from m obtain caps0 where r: "rmatch (prog_of ?segs) ?rs = Some caps0"
    by (auto simp: FindStringSubmatch_def split: option.splits)
  with m have c0: "caps0 = caps"
    by (simp add: FindStringSubmatch_def)
  have snd: "length caps = length (param_names ?segs)
        \<and> (\<forall>c \<in> set caps. c \<noteq> [] \<and> CHR ''/'' \<notin> set c)
        \<and> fits ?segs caps ?rs"
    using wf sound_runes r unfolding c0 by (rule rmatch_fits)
  then have len: "length caps = ?k + Suc (length (param_names post))"
    by (simp add: param_names_append)
  then have k: "?k < length caps" by simp
  have d: "drop ?k caps = caps ! ?k # drop (Suc ?k) caps"
    using k by (simp add: Cons_nth_drop_Suc)
  from snd obtain n where n: "n \<le> length ?rs"
    and a: "fits pre (take ?k caps) (take n ?rs)"
    and b: "fits (Param name # post) (drop ?k caps) (drop n ?rs)"
    using fits_append [of pre "Param name # post" caps ?rs] by blast
  from b obtain j where j: "j \<le> length (drop n ?rs)"
    and c: "concat (take j (drop n ?rs)) = caps ! ?k"
    and p: "fits post (drop (Suc ?k) caps) (drop j (drop n ?rs))"
    unfolding d fits_Param by blast
  have e1: "concat ?rs = concat (take n ?rs) @ concat (drop n ?rs)"
    by (metis append_take_drop_id concat_append)
  have e2: "concat (drop n ?rs) = concat (take j (drop n ?rs)) @ concat (drop j (drop n ?rs))"
    by (metis append_take_drop_id concat_append)
  have path: "path = concat (take n ?rs) @ caps ! ?k @ concat (drop j (drop n ?rs))"
    using e1 e2 c concat_runes [of path] by metis
  have "caps ! ?k \<in> set caps"
    using k by simp
  then have noslash: "CHR ''/'' \<notin> set (caps ! ?k)"
    using snd by blast
  have ea: "concat (take n ?rs) = [] \<or> last (concat (take n ?rs)) = CHR ''/''"
    using e a by (rule fits_ends_slash)
  have sb: "concat (drop j (drop n ?rs)) = [] \<or> hd (concat (drop j (drop n ?rs))) = CHR ''/''"
    using s p by (rule fits_starts_slash)
  show ?thesis
    using component_between [OF noslash ea sb] path by simp
qed

lemma agrees_exact:
  assumes "agrees p r" and "p \<noteq> ''.''" and "p \<noteq> RuneError"
  shows "r = p"
  using assms by (simp add: agrees_def rune_value_def split: if_splits)

lemma fits_exact:
  "list_all exact_seg segs \<Longrightarrow> fits segs caps rs \<Longrightarrow> instantiate segs caps = concat rs"
proof (induction segs arbitrary: caps rs rule: pattern_of.induct)
  case 1
  then show ?case by simp
next
  case (2 l segs)
  let ?nl = "length (runes l)"
  from 2(3) have lit: "list_all2 agrees (runes l) (take ?nl rs)"
    and rest: "fits segs caps (drop ?nl rs)"
    by simp_all
  from 2(2) have dot: "CHR ''.'' \<notin> set l" and err: "RuneError \<notin> set (runes l)"
    and ex: "list_all exact_seg segs"
    by simp_all
  have nodot: "''.'' \<notin> set (runes l)"
  proof
    assume "''.'' \<in> set (runes l)"
    then have "CHR ''.'' \<in> set (concat (runes l))"
      by (auto intro: bexI [of _ "''.''"])
    with dot show False
      by (simp add: concat_runes)
  qed
  have "list_all2 (=) (runes l) (take ?nl rs)"
    using lit
  proof (rule list.rel_mono_strong)
    fix p r
    assume "p \<in> set (runes l)" and "agrees p r"
    then show "p = r"
      using nodot err agrees_exact [of p r] by auto
  qed
  then have "take ?nl rs = runes l"
    by (simp add: list.rel_eq)
  then have "concat (take ?nl rs) = l"
    by (simp add: concat_runes)
  moreover have "concat rs = concat (take ?nl rs @ drop ?nl rs)"
    by simp
  ultimately have "concat rs = l @ concat (drop ?nl rs)"
    by (simp only: concat_append)
  then show ?case
    using 2(1) [OF ex rest] by simp
next
  case (3 name segs)
  from 3(3) obtain c caps' where caps: "caps = c # caps'"
    by (cases caps) simp_all
  with 3(3) obtain m where c: "concat (take m rs) = c" and rest: "fits segs caps' (drop m rs)"
    by (simp only: fits_Param) blast
  have "concat rs = concat (take m rs @ drop m rs)"
    by simp
  then have "concat rs = c @ concat (drop m rs)"
    unfolding concat_append c .
  then show ?case
    using 3(1) [OF _ rest] 3(2) caps by simp
qed

text \<open>
  C1. For a path pattern made of placeholders and of text without braces and without the
  operator characters of \<^verbatim>\<open>regexp\<close>, \<^verbatim>\<open>pathToRegex\<close> lists the placeholder names in
  the order of declaration; it compiles no pattern when the text makes the expression
  ill-formed UTF-8, and otherwise it compiles a matcher. The matcher either rejects a
  concrete path or returns, after the path itself, one captured substring per
  placeholder, in order; every capture is not empty and holds no slash, and the path reads
  as the pattern with the captures at the placeholders (it is the pattern with the
  captures in place of the placeholders when the text has no dot and no rune U+FFFD).
  With distinct names, the lookup binds each name to its capture. A placeholder that
  stands alone between slashes of the pattern captures a whole component of the path.
\<close>

theorem pathToRegex_captures:
  "(list_all wf_seg (pre @ Param name # post) \<and> ends_slash pre \<and> starts_slash post
      \<and> FindStringSubmatch (Prog (prog_of (pre @ Param name # post))) path' = path' # caps'
    \<longrightarrow> caps' ! length (param_names pre) \<in> set (components path'))
   \<and> (list_all plain_seg segs' \<longrightarrow>
        snd (pathToRegex (pattern_of segs')) = param_names segs'
        \<and> (\<not> valid_utf8 (''^'' @ group_text segs' @ ''$'')
             \<longrightarrow> fst (pathToRegex (pattern_of segs')) = None))
   \<and> (list_all wf_seg segs \<longrightarrow>
     pathToRegex (pattern_of segs) = (Some (Prog (prog_of segs)), param_names segs)
     \<and> (FindStringSubmatch (Prog (prog_of segs)) path = []
        \<or> (\<exists>caps. FindStringSubmatch (Prog (prog_of segs)) path = path # caps
               \<and> length caps = length (param_names segs)
               \<and> (\<forall>c \<in> set caps. c \<noteq> [] \<and> CHR ''/'' \<notin> set c)
               \<and> fits segs caps (runes path)
               \<and> (list_all exact_seg segs \<longrightarrow> instantiate segs caps = path)
               \<and> (distinct (param_names segs) \<longrightarrow>
                    (\<forall>i < length caps.
                       map_of (fill_params 0 (param_names segs) (path # caps) []) (param_names segs ! i)
                         = Some (caps ! i))))))"
proof (rule conjI; (rule conjI)?; rule impI)
  assume "list_all wf_seg (pre @ Param name # post) \<and> ends_slash pre \<and> starts_slash post
      \<and> FindStringSubmatch (Prog (prog_of (pre @ Param name # post))) path' = path' # caps'"
  then show "caps' ! length (param_names pre) \<in> set (components path')"
    using capture_whole_component by blast
next
  assume plain: "list_all plain_seg segs'"
  then have p: "pathToRegex (pattern_of segs')
       = (regexp_Compile (''^'' @ group_text segs' @ ''$''), param_names segs')"
    by (rule pathToRegex_plain)
  have "\<not> valid_utf8 (''^'' @ group_text segs' @ ''$'')
             \<longrightarrow> regexp_Compile (''^'' @ group_text segs' @ ''$'') = None"
    by (simp add: regexp_Compile_def)
  then show "snd (pathToRegex (pattern_of segs')) = param_names segs'
        \<and> (\<not> valid_utf8 (''^'' @ group_text segs' @ ''$'')
             \<longrightarrow> fst (pathToRegex (pattern_of segs')) = None)"
    unfolding p by simp
next
  assume wf: "list_all wf_seg segs"
  have compile: "pathToRegex (pattern_of segs) = (Some (Prog (prog_of segs)), param_names segs)"
    using wf by (rule pathToRegex_pattern_of)
  have "FindStringSubmatch (Prog (prog_of segs)) path = []
        \<or> (\<exists>caps. FindStringSubmatch (Prog (prog_of segs)) path = path # caps
               \<and> length caps = length (param_names segs)
               \<and> (\<forall>c \<in> set caps. c \<noteq> [] \<and> CHR ''/'' \<notin> set c)
               \<and> fits segs caps (runes path)
               \<and> (list_all exact_seg segs \<longrightarrow> instantiate segs caps = path)
               \<and> (distinct (param_names segs) \<longrightarrow>
                    (\<forall>i < length caps.
                       map_of (fill_params 0 (param_names segs) (path # caps) []) (param_names segs ! i)
                         = Some (caps ! i))))"
  proof (cases "rmatch (prog_of segs) (runes path)")
    case None
    then show ?thesis by (simp add: FindStringSubmatch_def)
  next
    case (Some caps)
    then have sub: "FindStringSubmatch (Prog (prog_of segs)) path = path # caps"
      by (simp add: FindStringSubmatch_def)
    have snd: "length caps = length (param_names segs)
        \<and> (\<forall>c \<in> set caps. c \<noteq> [] \<and> CHR ''/'' \<notin> set c)
        \<and> fits segs caps (runes path)"
      using wf sound_runes Some by (rule rmatch_fits)
    have exact: "list_all exact_seg segs \<longrightarrow> instantiate segs caps = path"
      using snd fits_exact [of segs caps "runes path"] by (simp add: concat_runes)
    have bind: "distinct (param_names segs) \<longrightarrow>
                    (\<forall>i < length caps.
                       map_of (fill_params 0 (param_names segs) (path # caps) []) (param_names segs ! i)
                         = Some (caps ! i))"
    proof (intro impI allI)
      fix i
      assume d: "distinct (param_names segs)" and i: "i < length caps"
      have len: "length (param_names segs) = length caps"
        using snd by simp
      have "distinct (map fst (zip (param_names segs) caps))"
        using d len by simp
      then have "map_of (rev (zip (param_names segs) caps)) = map_of (zip (param_names segs) caps)"
        by (rule map_of_rev_distinct)
      moreover have "map_of (zip (param_names segs) caps) (param_names segs ! i) = Some (caps ! i)"
        using len d i by (rule map_of_zip_nth)
      ultimately show "map_of (fill_params 0 (param_names segs) (path # caps) []) (param_names segs ! i)
                         = Some (caps ! i)"
        by (simp add: map_of_fill_params)
    qed
    show ?thesis
      using sub snd exact bind by blast
  qed
  with compile show "pathToRegex (pattern_of segs) = (Some (Prog (prog_of segs)), param_names segs)
     \<and> (FindStringSubmatch (Prog (prog_of segs)) path = []
        \<or> (\<exists>caps. FindStringSubmatch (Prog (prog_of segs)) path = path # caps
               \<and> length caps = length (param_names segs)
               \<and> (\<forall>c \<in> set caps. c \<noteq> [] \<and> CHR ''/'' \<notin> set c)
               \<and> fits segs caps (runes path)
               \<and> (list_all exact_seg segs \<longrightarrow> instantiate segs caps = path)
               \<and> (distinct (param_names segs) \<longrightarrow>
                    (\<forall>i < length caps.
                       map_of (fill_params 0 (param_names segs) (path # caps) []) (param_names segs ! i)
                         = Some (caps ! i)))))"
    by simp
qed

theorem pathToRegex_captures_witness:
  "list_all wf_seg [Literal ''/users/'', Param ''id'', Literal ''/posts/'', Param ''post'']
   \<and> pattern_of [Literal ''/users/'', Param ''id'', Literal ''/posts/'', Param ''post'']
       = ''/users/{id}/posts/{post}''
   \<and> snd (pathToRegex ''/users/{id}/posts/{post}'') = [''id'', ''post'']
   \<and> FindStringSubmatch (the (fst (pathToRegex ''/users/{id}/posts/{post}''))) ''/users/42/posts/7''
       = [''/users/42/posts/7'', ''42'', ''7'']
   \<and> FindStringSubmatch (the (fst (pathToRegex ''/users/{id}/posts/{post}''))) ''/users/42/posts/7/x'' = []
   \<and> FindStringSubmatch (the (fst (pathToRegex ''/users/{id}/posts/{post}''))) ''/users//posts/7'' = []
   \<and> ''42'' \<in> set (components ''/users/42/posts/7'')
   \<and> instantiate [Literal ''/users/'', Param ''id'', Literal ''/posts/'', Param ''post''] [''42'', ''7'']
       = ''/users/42/posts/7''
   \<and> list_all wf_seg [Literal (''/caf'' @ [CHR 0xC3, CHR 0xA9] @ ''/''), Param ''id'']
   \<and> pathToRegex (''/caf'' @ [CHR 0xC3, CHR 0xA9] @ ''/{id}'')
       = (Some (Prog [Lit CHR ''/'', Lit CHR ''c'', Lit CHR ''a'', Lit CHR ''f'',
                      LitRune [CHR 0xC3, CHR 0xA9], Lit CHR ''/'', Capture]), [''id''])
   \<and> FindStringSubmatch
         (Prog [Lit CHR ''/'', Lit CHR ''c'', Lit CHR ''a'', Lit CHR ''f'',
                LitRune [CHR 0xC3, CHR 0xA9], Lit CHR ''/'', Capture])
         (''/caf'' @ [CHR 0xC3, CHR 0xA9] @ ''/42'')
       = [''/caf'' @ [CHR 0xC3, CHR 0xA9] @ ''/42'', ''42'']
   \<and> list_all plain_seg [Literal [CHR ''/'', CHR 0xFF, CHR ''/''], Param ''id'']
   \<and> \<not> valid_utf8 (''^'' @ group_text [Literal [CHR ''/'', CHR 0xFF, CHR ''/''], Param ''id''] @ ''$'')
   \<and> pathToRegex ([CHR ''/'', CHR 0xFF, CHR ''/''] @ ''{id}'') = (None, [''id''])"
proof -
  let ?segs = "[Literal ''/users/'', Param ''id'', Literal ''/posts/'', Param ''post'']"
  let ?cafe = "[Literal (''/caf'' @ [CHR 0xC3, CHR 0xA9] @ ''/''), Param ''id'']"
  let ?bad = "[Literal [CHR ''/'', CHR 0xFF, CHR ''/''], Param ''id'']"
  note matcher = pathToRegex_captures [THEN conjunct2, THEN conjunct2, rule_format]
  note names = pathToRegex_captures [THEN conjunct2, THEN conjunct1, rule_format]
  have wf: "list_all wf_seg ?segs"
    by code_simp
  have pat: "pattern_of ?segs = ''/users/{id}/posts/{post}''"
    by simp
  have c: "pathToRegex (pattern_of ?segs) = (Some (Prog (prog_of ?segs)), param_names ?segs)"
    using matcher [OF wf, of "''/users/42/posts/7''"] by blast
  have m1: "FindStringSubmatch (Prog (prog_of ?segs)) ''/users/42/posts/7''
      = [''/users/42/posts/7'', ''42'', ''7'']"
    by code_simp
  have m2: "FindStringSubmatch (Prog (prog_of ?segs)) ''/users/42/posts/7/x'' = []"
    by code_simp
  have m3: "FindStringSubmatch (Prog (prog_of ?segs)) ''/users//posts/7'' = []"
    by code_simp
  have e: "ends_slash [Literal ''/users/'']"
    and st: "starts_slash [Literal ''/posts/'', Param ''post'']"
    by (simp_all add: ends_slash_def starts_slash_def)
  have "[''42'', ''7''] ! length (param_names [Literal ''/users/''])
      \<in> set (components ''/users/42/posts/7'')"
    using wf e st m1
    by (intro pathToRegex_captures [THEN conjunct1, rule_format,
          where pre = "[Literal ''/users/'']" and name = "''id''"
            and post = "[Literal ''/posts/'', Param ''post'']"]) simp
  then have w: "''42'' \<in> set (components ''/users/42/posts/7'')"
    by simp
  have ex: "list_all exact_seg ?segs"
    by code_simp
  have inst: "instantiate ?segs [''42'', ''7''] = ''/users/42/posts/7''"
    using matcher [OF wf, of "''/users/42/posts/7''"] m1 ex by auto
  have wf2: "list_all wf_seg ?cafe"
    by code_simp
  have pat2: "pattern_of ?cafe = ''/caf'' @ [CHR 0xC3, CHR 0xA9] @ ''/{id}''"
    by simp
  have prog2: "prog_of ?cafe = [Lit CHR ''/'', Lit CHR ''c'', Lit CHR ''a'', Lit CHR ''f'',
                      LitRune [CHR 0xC3, CHR 0xA9], Lit CHR ''/'', Capture]"
    by code_simp
  have c2: "pathToRegex (pattern_of ?cafe) = (Some (Prog (prog_of ?cafe)), param_names ?cafe)"
    using matcher [OF wf2, of "[]"] by blast
  have m4: "FindStringSubmatch
         (Prog [Lit CHR ''/'', Lit CHR ''c'', Lit CHR ''a'', Lit CHR ''f'',
                LitRune [CHR 0xC3, CHR 0xA9], Lit CHR ''/'', Capture])
         (''/caf'' @ [CHR 0xC3, CHR 0xA9] @ ''/42'')
       = [''/caf'' @ [CHR 0xC3, CHR 0xA9] @ ''/42'', ''42'']"
    by code_simp
  have pl: "list_all plain_seg ?bad"
    by code_simp
  have nv: "\<not> valid_utf8 (''^'' @ group_text ?bad @ ''$'')"
    by code_simp
  have pat3: "pattern_of ?bad = [CHR ''/'', CHR 0xFF, CHR ''/''] @ ''{id}''"
    by simp
  have "snd (pathToRegex (pattern_of ?bad)) = param_names ?bad"
    and "fst (pathToRegex (pattern_of ?bad)) = None"
    using names [OF pl] nv by blast+
  then have c3: "pathToRegex (pattern_of ?bad) = (None, [''id''])"
    by (simp add: prod_eq_iff)
  show ?thesis
    using wf c m1 m2 m3 w inst wf2 c2 m4 pl nv c3 unfolding pat pat2 pat3 prog2 by simp
qed

theorem pathToRegex_partial_and_shifted:
  "pathToRegex ''/x{id}'' = (Some (Prog [Lit CHR ''/'', Lit CHR ''x'', Capture]), [''id''])
   \<and> FindStringSubmatch (Prog [Lit CHR ''/'', Lit CHR ''x'', Capture]) ''/x42'' = [''/x42'', ''42'']
   \<and> components ''/x42'' = [[], ''x42'']
   \<and> ''42'' \<notin> set (components ''/x42'')
   \<and> pathToRegex ''/([^/]+)/{id}''
       = (Some (Prog [Lit CHR ''/'', Capture, Lit CHR ''/'', Capture]), [''id''])
   \<and> FindStringSubmatch (Prog [Lit CHR ''/'', Capture, Lit CHR ''/'', Capture]) ''/a/b''
       = [''/a/b'', ''a'', ''b'']
   \<and> findMatchingRoute group_routes ''/a/b'' ''GET'' = (group_route, [(''id'', ''a'')], True)"
  by code_simp

end
